theory Spec2Isabelle
  imports Main "HOL-Library.Sublist"
begin

section \<open>Strings\<close>

text \<open>
  Python strings are modelled as \<open>string\<close>; a character stands for a code point below 256.
  \<open>isspace\<close>, \<open>strip\<close> and \<open>lower\<close> are \<open>str.isspace\<close>, \<open>str.strip\<close> and \<open>str.lower\<close> on
  these code points; \<open>contains sub s\<close> is Python's \<open>sub in s\<close>.
\<close>

definition isspace :: "char \<Rightarrow> bool" where
  "isspace c = ((of_char c :: nat) \<in> {9, 10, 11, 12, 13, 28, 29, 30, 31, 32, 133, 160})"

definition strip :: "string \<Rightarrow> string" where
  "strip s = rev (dropWhile isspace (rev (dropWhile isspace s)))"

definition lower_char :: "char \<Rightarrow> char" where
  "lower_char c =
     (let n = (of_char c :: nat) in
      if (65 \<le> n \<and> n \<le> 90) \<or> (192 \<le> n \<and> n \<le> 222 \<and> n \<noteq> 215)
      then char_of (n + 32) else c)"

definition lower :: "string \<Rightarrow> string" where
  "lower s = map lower_char s"

fun contains :: "string \<Rightarrow> string \<Rightarrow> bool" where
  "contains sub [] = (sub = [])"
| "contains sub (c # cs) = (prefix sub (c # cs) \<or> contains sub cs)"

text \<open>\<open>split_on c s\<close> is \<open>s.split(c)\<close> for a one-character separator, \<open>join_with\<close> is \<open>sep.join\<close>.\<close>

fun split_on :: "char \<Rightarrow> string \<Rightarrow> string list" where
  "split_on c [] = [[]]"
| "split_on c (x # xs) =
     (if x = c then [] # split_on c xs
      else (case split_on c xs of
              [] \<Rightarrow> [[x]]
            | w # ws \<Rightarrow> (x # w) # ws))"

fun join_with :: "string \<Rightarrow> string list \<Rightarrow> string" where
  "join_with sep [] = []"
| "join_with sep [w] = w"
| "join_with sep (w # ws) = w @ sep @ join_with sep ws"

text \<open>The whitespace-separated words of a string (how the parser splits a \<open>class\<close> value).\<close>

fun split_ws_loop :: "string \<Rightarrow> string \<Rightarrow> string list" where
  "split_ws_loop cur [] = (if cur = [] then [] else [cur])"
| "split_ws_loop cur (x # xs) =
     (if isspace x then (if cur = [] then [] else [cur]) @ split_ws_loop [] xs
      else split_ws_loop (cur @ [x]) xs)"

definition split_ws :: "string \<Rightarrow> string list" where
  "split_ws s = split_ws_loop [] s"

section \<open>Errors and the document tree\<close>

text \<open>
  The exceptions that the libraries used by the two modules can raise; every one is a
  subclass of Python's \<open>Exception\<close>.
\<close>

datatype error =
  ValueError | AttributeError | ParserRejectedMarkup | SelectorSyntaxError
  | RegexError | RecursionError

text \<open>
  A parsed document: text nodes and elements with a tag name, attributes in document order
  and children. The \<open>BeautifulSoup\<close> object itself is the element named \<open>[document]\<close>.
  A text node is an ordinary string of the document. Comments and the character data of
  \<open>script\<close>, \<open>style\<close> and \<open>template\<close> elements, which \<open>get_text\<close> passes over, are not
  nodes of these trees.
\<close>

datatype node = Text string | Element string "(string \<times> string) list" "node list"

definition document :: "node list \<Rightarrow> node" where
  "document nodes = Element ''[document]'' [] nodes"

fun is_element :: "node \<Rightarrow> bool" where
  "is_element (Text s) = False"
| "is_element (Element n a cs) = True"

fun name :: "node \<Rightarrow> string" where
  "name (Text s) = []"
| "name (Element n a cs) = n"

fun attrs :: "node \<Rightarrow> (string \<times> string) list" where
  "attrs (Text s) = []"
| "attrs (Element n a cs) = a"

fun contents :: "node \<Rightarrow> node list" where
  "contents (Text s) = []"
| "contents (Element n a cs) = cs"

text \<open>\<open>get_attr el k\<close> is \<open>el.get(k)\<close>; \<open>get_class\<close> is \<open>el.get('class', [])\<close>, a list of words.\<close>

definition get_attr :: "node \<Rightarrow> string \<Rightarrow> string option" where
  "get_attr el k = map_of (attrs el) k"

definition get_class :: "node \<Rightarrow> string list" where
  "get_class el = (case get_attr el ''class'' of None \<Rightarrow> [] | Some v \<Rightarrow> split_ws v)"

text \<open>The strings below a node in document order, \<open>get_text()\<close> and \<open>get_text(strip=True)\<close>.\<close>

fun strings :: "node \<Rightarrow> string list" where
  "strings (Text s) = [s]"
| "strings (Element n a cs) = concat (map strings cs)"

definition get_text :: "node \<Rightarrow> string" where
  "get_text el = concat (strings el)"

definition get_text_strip :: "node \<Rightarrow> string" where
  "get_text_strip el = concat (filter (\<lambda>s. s \<noteq> []) (map strip (strings el)))"

section \<open>The libraries\<close>

text \<open>
  The HTML parser, the serialiser, the regular expression engine and the URL functions are
  libraries outside the repository. The modules are modelled over a record of them, so
  that what is proved holds for whatever the libraries compute:
  \<^item> \<open>html_parser s\<close> is \<open>BeautifulSoup(s, 'html.parser')\<close>, the top-level nodes;
  \<^item> \<open>to_str soup\<close> is \<open>str(soup)\<close>;
  \<^item> \<open>re_compile k\<close> is \<open>re.compile(k, re.IGNORECASE)\<close>, as the predicate
    "the pattern is found in the string";
  \<^item> \<open>urlparse\<close> and \<open>urljoin\<close> are those of \<open>urllib.parse\<close>;
  \<^item> \<open>recursion_limit\<close> is the number of nested comparisons of elements that the
    interpreter's stack allows before it raises \<open>RecursionError\<close>.
\<close>

record parse_result =
  scheme :: string
  netloc :: string
  path :: string
  params :: string
  query :: string
  fragment :: string

record libs =
  html_parser :: "string \<Rightarrow> error + node list"
  to_str :: "node \<Rightarrow> error + string"
  re_compile :: "string \<Rightarrow> error + (string \<Rightarrow> bool)"
  urlparse :: "string \<Rightarrow> error + parse_result"
  urljoin :: "string \<Rightarrow> string \<Rightarrow> error + string"
  recursion_limit :: nat

section \<open>Navigation links and their deduplication\<close>

text \<open>
  A link dictionary built by \<open>_extract_nav_element_info\<close> is a record with the same keys
  (\<open>text\<close> is spelled \<open>ltext\<close>).
\<close>

record link_info =
  ltext :: string
  url :: string
  href :: string
  level :: nat
  parent_text :: "string option"
  css_classes :: "string list"
  attributes :: "(string \<times> string) list"

text \<open>The key of \<open>_deduplicate_links\<close>: \<^verbatim>\<open>f"{link['text']}|{link['url']}"\<close>.\<close>

definition link_key :: "link_info \<Rightarrow> string" where
  "link_key link = ltext link @ ''|'' @ url link"

text \<open>
  The loop of \<open>_deduplicate_links\<close>, with its two variables \<open>seen\<close> (a set of keys) and
  \<open>unique_links\<close> (the list built by \<open>append\<close>).
\<close>

fun dedup_loop :: "link_info list \<Rightarrow> string set \<Rightarrow> link_info list \<Rightarrow> link_info list" where
  "dedup_loop [] seen unique_links = unique_links"
| "dedup_loop (link # links) seen unique_links =
     (let key = link_key link in
      if key \<notin> seen then dedup_loop links (insert key seen) (unique_links @ [link])
      else dedup_loop links seen unique_links)"

definition deduplicate_links :: "link_info list \<Rightarrow> link_info list" where
  "deduplicate_links links = dedup_loop links {} []"

section \<open>Selectors\<close>

text \<open>
  The selectors of both modules are compound selectors: a conjunction of tests on one
  element. \<open>Tag ''nav''\<close> is \<open>nav\<close>, \<open>Class ''menu''\<close> is \<open>.menu\<close>, \<open>Id ''footer''\<close> is
  \<open>#footer\<close>, \<open>Attr_eq ''role'' ''navigation''\<close> is \<open>[role="navigation"]\<close>,
  \<open>Attr_contains ''class'' ''ad-''\<close> is \<open>[class*="ad-"]\<close> and \<open>First_child\<close> is
  \<open>:first-child\<close>, which a caller may pass as a custom selector. \<open>Invalid s\<close> is a string
  that the selector library rejects with an exception.
\<close>

datatype simple = Tag string | Class string | Id string | Attr_eq string string
  | Attr_contains string string | First_child

datatype selector = Compound "simple list" | Invalid string

text \<open>
  An element found in the tree comes with its ancestors, nearest first (the chain of
  \<open>.parent\<close>, ending with the document), and with the siblings before it.
\<close>

type_synonym loc = "node \<times> node list \<times> node list"

fun walk :: "node list \<Rightarrow> node list \<Rightarrow> node list \<Rightarrow> loc list"
  and walk_node :: "node list \<Rightarrow> node list \<Rightarrow> node \<Rightarrow> loc list" where
  "walk anc prev [] = []"
| "walk anc prev (c # cs) = walk_node anc prev c @ walk anc (prev @ [c]) cs"
| "walk_node anc prev (Text s) = []"
| "walk_node anc prev (Element n a cs) =
     (Element n a cs, anc, prev) # walk (Element n a cs # anc) [] cs"

text \<open>The elements below \<open>el\<close> in document order, \<open>el\<close> itself excluded.\<close>

definition descendants :: "node \<Rightarrow> node list \<Rightarrow> loc list" where
  "descendants el anc = walk (el # anc) [] (contents el)"

text \<open>The elements below a node in document order, without their context.\<close>

fun elements_below :: "node \<Rightarrow> node list" where
  "elements_below (Text s) = []"
| "elements_below (Element n a cs) =
     concat (map (\<lambda>c. (if is_element c then [c] else []) @ elements_below c) cs)"

fun matches_simple :: "simple \<Rightarrow> loc \<Rightarrow> bool" where
  "matches_simple (Tag t) (el, anc, prev) = (name el = t)"
| "matches_simple (Class c) (el, anc, prev) = (c \<in> set (get_class el))"
| "matches_simple (Id i) (el, anc, prev) = (get_attr el ''id'' = Some i)"
| "matches_simple (Attr_eq k v) (el, anc, prev) = (get_attr el k = Some v)"
| "matches_simple (Attr_contains k v) (el, anc, prev) =
     (case get_attr el k of None \<Rightarrow> False | Some x \<Rightarrow> v \<noteq> [] \<and> contains v x)"
| "matches_simple First_child (el, anc, prev) = (\<not> list_ex is_element prev)"

definition matches :: "simple list \<Rightarrow> loc \<Rightarrow> bool" where
  "matches ts l = list_all (\<lambda>t. matches_simple t l) ts"

text \<open>\<open>select sel el anc\<close> is \<open>el.select(sel)\<close> for the element \<open>el\<close> with ancestors \<open>anc\<close>.\<close>

fun select :: "selector \<Rightarrow> node \<Rightarrow> node list \<Rightarrow> error + loc list" where
  "select (Invalid s) el anc = Inl SelectorSyntaxError"
| "select (Compound ts) el anc =
     Inr (filter (matches ts) (descendants el anc))"

section \<open>The navigation extractor\<close>

record nav_info =
  selector :: selector
  html :: string
  ntext :: string
  links :: "link_info list"
  "structure" :: string

record structure_item =
  s_text :: string
  s_url :: string
  s_level :: nat
  s_parent_text :: "string option"
  s_type :: string

record navigation_data =
  found_navigations :: "nav_info list"
  primary_navigation :: "nav_info option"
  all_nav_links :: "link_info list"
  navigation_structure :: "structure_item list"

record extractor =
  base_url :: string
  domain :: string
  nav_selectors :: "selector list"

text \<open>
  \<open>__init__\<close>: the domain is the network location of the base URL, and \<open>nav_selectors\<close>
  is the fixed list, highest priority first.
\<close>

definition nav_selector_list :: "selector list" where
  "nav_selector_list =
     [Compound [Tag ''nav'', Attr_eq ''role'' ''navigation''],
      Compound [Tag ''nav'', Class ''main-nav''],
      Compound [Tag ''nav'', Class ''primary-nav''],
      Compound [Tag ''nav'', Class ''site-nav''],
      Compound [Tag ''nav'', Class ''header-nav''],
      Compound [Tag ''nav'', Class ''top-nav''],
      Compound [Class ''navbar''],
      Compound [Class ''navigation''],
      Compound [Class ''nav-menu''],
      Compound [Class ''main-navigation''],
      Compound [Class ''site-navigation''],
      Compound [Class ''header-navigation''],
      Compound [Class ''primary-navigation''],
      Compound [Tag ''nav''],
      Compound [Class ''nav''],
      Compound [Class ''menu''],
      Compound [Attr_eq ''role'' ''navigation''],
      Compound [Class ''sidebar-nav''],
      Compound [Class ''side-nav'']]"

definition init :: "libs \<Rightarrow> string \<Rightarrow> error + extractor" where
  "init L b =
     (case urlparse L b of
        Inl e \<Rightarrow> Inl e
      | Inr parsed \<Rightarrow>
          Inr \<lparr>base_url = b, domain = netloc parsed, nav_selectors = nav_selector_list\<rparr>)"

text \<open>\<open>_is_valid_internal_url\<close>; the bare \<open>except\<close> turns any exception into \<open>False\<close>.\<close>

definition is_valid_internal_url :: "libs \<Rightarrow> extractor \<Rightarrow> string \<Rightarrow> bool" where
  "is_valid_internal_url L self u =
     (case urlparse L u of
        Inl e \<Rightarrow> False
      | Inr parsed \<Rightarrow>
          netloc parsed = domain self \<and>
          scheme parsed \<in> set [''http'', ''https''] \<and>
          \<not> list_ex (\<lambda>ext. contains ext (lower u))
               [''.pdf'', ''.jpg'', ''.png'', ''.gif'', ''.css'', ''.js'', ''.ico''])"

text \<open>
  \<open>str(classes)\<close> for a list of class names, as Python prints a list of strings that need
  no escaping: \<open>['a', 'b']\<close>.
\<close>

definition str_list :: "string list \<Rightarrow> string" where
  "str_list ws = ''['' @ join_with '', '' (map (\<lambda>w. [CHR 0x27] @ w @ [CHR 0x27]) ws) @ '']''"

definition menu_container :: "node \<Rightarrow> bool" where
  "menu_container current =
     (name current \<in> set [''ul'', ''ol'', ''li'', ''div''] \<and>
      contains ''menu'' (lower (str_list (get_class current))))"

text \<open>
  The library's comparison of two elements: equal names, equal attribute dictionaries (the
  value of \<open>class\<close> is its list of words), equally many children, and equal children one
  by one. Comparing two child elements nests; \<open>d\<close> is the number of nested comparisons
  still allowed, and with none left the interpreter raises \<open>RecursionError\<close>. Strings are
  compared without nesting.
\<close>

definition attr_item :: "string \<times> string \<Rightarrow> string \<times> string list" where
  "attr_item kv = (fst kv, if fst kv = ''class'' then split_ws (snd kv) else [snd kv])"

fun tag_eq :: "nat \<Rightarrow> node \<Rightarrow> node \<Rightarrow> error + bool"
  and contents_eq :: "nat \<Rightarrow> node list \<Rightarrow> node list \<Rightarrow> error + bool" where
  "tag_eq d (Element n a cs) (Element n' a' cs') =
     (if d = 0 then Inl RecursionError
      else if n \<noteq> n' \<or> set (map attr_item a) \<noteq> set (map attr_item a') \<or>
              length cs \<noteq> length cs'
      then Inr False
      else contents_eq (d - 1) cs cs')"
| "tag_eq d (Element n a cs) (Text s') = Inr False"
| "tag_eq d (Text s) (Element n' a' cs') = Inr False"
| "tag_eq d (Text s) (Text s') = Inr (s = s')"
| "contents_eq d [] ys = Inr True"
| "contents_eq d (x # xs) [] = Inr True"
| "contents_eq d (x # xs) (y # ys) =
     (case tag_eq d x y of
        Inl e \<Rightarrow> Inl e
      | Inr equal \<Rightarrow> if equal then contents_eq d xs ys else Inr False)"

text \<open>
  \<open>_calculate_link_level\<close>: \<open>chain\<close> is \<open>link.parent\<close>, its parent and so on; the empty chain
  is \<open>current = None\<close>. The test \<open>current != nav_element\<close> is the library's comparison. It
  answers at once for one and the same element; in the chain of parents of a link only
  the navigation element itself is equal to the navigation element (lemma
  \<open>descendants_chain\<close>), which is the first case below. For any other element the
  comparison descends into the two trees and may raise.
\<close>

fun level_loop :: "nat \<Rightarrow> nat \<Rightarrow> node list \<Rightarrow> node \<Rightarrow> error + nat" where
  "level_loop d lvl [] nav_element = Inr lvl"
| "level_loop d lvl (current # chain) nav_element =
     (if current = nav_element then Inr lvl
      else
        (case tag_eq d current nav_element of
           Inl e \<Rightarrow> Inl e
         | Inr equal \<Rightarrow>
             if equal then Inr lvl
             else level_loop d (if menu_container current then lvl + 1 else lvl)
                    chain nav_element))"

definition calculate_link_level :: "libs \<Rightarrow> loc \<Rightarrow> node \<Rightarrow> error + nat" where
  "calculate_link_level L link_element nav_element =
     level_loop (recursion_limit L) 0 (fst (snd link_element)) nav_element"

text \<open>\<open>s.replace(sub, '')\<close> for a non-empty \<open>sub\<close>.\<close>

function remove_all :: "string \<Rightarrow> string \<Rightarrow> string" where
  "remove_all sub s =
     (if sub = [] \<or> s = [] then s
      else if prefix sub s then remove_all sub (drop (length sub) s)
      else hd s # remove_all sub (tl s))"
  by pat_completeness auto
termination
  by (relation "measure (\<lambda>(sub, s). length s)") auto

text \<open>\<open>_get_parent_text\<close>, over the same chain of parents.\<close>

fun parent_text_loop :: "node \<Rightarrow> node list \<Rightarrow> string option" where
  "parent_text_loop link [] = None"
| "parent_text_loop link (parent # chain) =
     (if name parent \<in> set [''li'', ''div''] \<and> get_text_strip parent \<noteq> get_text_strip link \<and>
         contains (get_text_strip link) (get_text_strip parent)
      then Some (strip (remove_all (get_text_strip link) (get_text_strip parent)))
      else parent_text_loop link chain)"

definition get_parent_text :: "loc \<Rightarrow> string option" where
  "get_parent_text link_element =
     parent_text_loop (fst link_element) (fst (snd link_element))"

text \<open>
  \<open>_has_nested_structure\<close>: the selector
  \<open>ul ul, ol ol, li li, .dropdown, .submenu, .sub-menu\<close> finds a descendant that is a
  list in a list, an item in an item, or carries one of the three classes.
\<close>

definition nested_match :: "loc \<Rightarrow> bool" where
  "nested_match l =
     (case l of (el, anc, prev) \<Rightarrow>
        (name el = ''ul'' \<and> list_ex (\<lambda>a. name a = ''ul'') anc) \<or>
        (name el = ''ol'' \<and> list_ex (\<lambda>a. name a = ''ol'') anc) \<or>
        (name el = ''li'' \<and> list_ex (\<lambda>a. name a = ''li'') anc) \<or>
        list_ex (\<lambda>c. c \<in> set [''dropdown'', ''submenu'', ''sub-menu'']) (get_class el))"

definition has_nested_structure :: "node \<Rightarrow> node list \<Rightarrow> bool" where
  "has_nested_structure nav_element anc =
     (length (filter nested_match (descendants nav_element anc)) > 0)"

text \<open>
  The loop of \<open>_extract_nav_element_info\<close> over \<open>find_all('a', href=True)\<close>; \<open>acc\<close> is
  \<open>nav_info['links']\<close>. \<open>urljoin\<close> and \<open>_calculate_link_level\<close> are called outside any
  \<open>try\<close>: their exceptions end the loop.
\<close>

fun links_loop ::
  "libs \<Rightarrow> extractor \<Rightarrow> string \<Rightarrow> node \<Rightarrow> loc list \<Rightarrow> link_info list \<Rightarrow> error + link_info list"
  where
  "links_loop L self page_url nav_element [] acc = Inr acc"
| "links_loop L self page_url nav_element (link # rest) acc =
     (let h = (case get_attr (fst link) ''href'' of None \<Rightarrow> [] | Some v \<Rightarrow> v);
          t = get_text_strip (fst link)
      in if h \<noteq> [] \<and> t \<noteq> [] then
           (case urljoin L page_url h of
              Inl e \<Rightarrow> Inl e
            | Inr full_url \<Rightarrow>
                if is_valid_internal_url L self full_url
                then (case calculate_link_level L link nav_element of
                        Inl e \<Rightarrow> Inl e
                      | Inr lv \<Rightarrow>
                          links_loop L self page_url nav_element rest
                            (acc @ [\<lparr>ltext = t, url = full_url, href = h, level = lv,
                                     parent_text = get_parent_text link,
                                     css_classes = get_class (fst link),
                                     attributes = attrs (fst link)\<rparr>]))
                else links_loop L self page_url nav_element rest acc)
         else links_loop L self page_url nav_element rest acc)"

definition find_all_a_href :: "node \<Rightarrow> node list \<Rightarrow> loc list" where
  "find_all_a_href el anc =
     filter (\<lambda>l. name (fst l) = ''a'' \<and> get_attr (fst l) ''href'' \<noteq> None) (descendants el anc)"

definition extract_nav_element_info ::
  "libs \<Rightarrow> extractor \<Rightarrow> loc \<Rightarrow> string \<Rightarrow> selector \<Rightarrow> error + nav_info" where
  "extract_nav_element_info L self nav page_url sel =
     (case to_str L (fst nav) of
        Inl e \<Rightarrow> Inl e
      | Inr h \<Rightarrow>
         (case links_loop L self page_url (fst nav)
                 (find_all_a_href (fst nav) (fst (snd nav))) [] of
            Inl e \<Rightarrow> Inl e
          | Inr ls \<Rightarrow>
              Inr \<lparr>selector = sel, html = h, ntext = get_text_strip (fst nav), links = ls,
                   structure = (if has_nested_structure (fst nav) (fst (snd nav))
                                then ''hierarchical'' else ''flat'')\<rparr>))"

text \<open>
  \<open>_build_navigation_structure\<close>. The dictionary \<open>levels\<close> is an association list in
  insertion order; \<open>levels_add\<close> is the body of the first loop.
\<close>

fun levels_add :: "nat \<Rightarrow> link_info \<Rightarrow> (nat \<times> link_info list) list \<Rightarrow> (nat \<times> link_info list) list"
  where
  "levels_add lv link [] = [(lv, [link])]"
| "levels_add lv link ((k, v) # kvs) =
     (if k = lv then (k, v @ [link]) # kvs else (k, v) # levels_add lv link kvs)"

fun group_loop :: "link_info list \<Rightarrow> (nat \<times> link_info list) list \<Rightarrow> (nat \<times> link_info list) list"
  where
  "group_loop [] levels = levels"
| "group_loop (link # rest) levels = group_loop rest (levels_add (level link) link levels)"

definition structure_item_of :: "nat \<Rightarrow> link_info \<Rightarrow> structure_item" where
  "structure_item_of lv link =
     \<lparr>s_text = ltext link, s_url = url link, s_level = lv,
      s_parent_text = parent_text link, s_type = ''navigation''\<rparr>"

definition build_navigation_structure :: "link_info list \<Rightarrow> structure_item list" where
  "build_navigation_structure ls =
     (let levels = group_loop ls [] in
      concat (map (\<lambda>lv. map (structure_item_of lv)
                          (case map_of levels lv of None \<Rightarrow> [] | Some v \<Rightarrow> v))
                  (sort (map fst levels))))"

text \<open>
  \<open>extract_navigation_from_html\<close>: the inner loop over the elements that one selector
  matches and the outer loop over \<open>nav_selectors\<close>; the state is \<open>found_navigations\<close> and
  \<open>primary_navigation\<close>. Nothing in the function catches an exception.
\<close>

fun elements_loop ::
  "libs \<Rightarrow> extractor \<Rightarrow> string \<Rightarrow> selector \<Rightarrow> loc list \<Rightarrow> nav_info list \<times> nav_info option
     \<Rightarrow> error + nav_info list \<times> nav_info option" where
  "elements_loop L self page_url sel [] st = Inr st"
| "elements_loop L self page_url sel (nav_element # rest) st =
     (case extract_nav_element_info L self nav_element page_url sel of
        Inl e \<Rightarrow> Inl e
      | Inr info \<Rightarrow>
          if links info \<noteq> []
          then elements_loop L self page_url sel rest
                 (fst st @ [info], if snd st = None then Some info else snd st)
          else elements_loop L self page_url sel rest st)"

fun selectors_loop ::
  "libs \<Rightarrow> extractor \<Rightarrow> node \<Rightarrow> string \<Rightarrow> selector list \<Rightarrow> nav_info list \<times> nav_info option
     \<Rightarrow> error + nav_info list \<times> nav_info option" where
  "selectors_loop L self soup page_url [] st = Inr st"
| "selectors_loop L self soup page_url (sel # sels) st =
     (case select sel soup [] of
        Inl e \<Rightarrow> Inl e
      | Inr nav_elements \<Rightarrow>
          (case elements_loop L self page_url sel nav_elements st of
             Inl e \<Rightarrow> Inl e
           | Inr st' \<Rightarrow> selectors_loop L self soup page_url sels st'))"

definition extract_navigation_from_html ::
  "libs \<Rightarrow> extractor \<Rightarrow> string \<Rightarrow> string \<Rightarrow> error + navigation_data" where
  "extract_navigation_from_html L self html_content page_url =
     (case html_parser L html_content of
        Inl e \<Rightarrow> Inl e
      | Inr nodes \<Rightarrow>
          (case selectors_loop L self (document nodes) page_url (nav_selectors self) ([], None) of
             Inl e \<Rightarrow> Inl e
           | Inr st \<Rightarrow>
               (let all_links = concat (map links (fst st));
                    unique_links = deduplicate_links all_links
                in Inr \<lparr>found_navigations = fst st, primary_navigation = snd st,
                        all_nav_links = unique_links,
                        navigation_structure = build_navigation_structure unique_links\<rparr>)))"

section \<open>Site aggregation\<close>

text \<open>
  A crawl result carries the page URL, the cleaned HTML and the extracted content, which is
  a dictionary or a list whose first entry is used.
\<close>

datatype content = Content_dict "(string \<times> string) list" | Content_list "content list"
  | Content_other

record crawl_result =
  cr_url :: string
  cleaned_html :: string
  extracted_content :: content

record page_navigation =
  pn_url :: string
  extracted_navigation :: "string option"
  enhanced_navigation :: "navigation_data option"

record site_navigation =
  sn_base_url :: string
  total_pages :: nat
  pages_with_navigation :: nat
  unique_navigation_links :: "link_info list"
  sn_navigation_structure :: "structure_item list"
  page_navigations :: "page_navigation list"

definition extracted_navigation_of :: "content \<Rightarrow> string option" where
  "extracted_navigation_of ec =
     (let ec' = (case ec of Content_list (x # xs) \<Rightarrow> x | _ \<Rightarrow> ec) in
      case ec' of
        Content_dict d \<Rightarrow>
          (case map_of d ''navigation'' of
             None \<Rightarrow> None
           | Some nav_html \<Rightarrow> if nav_html \<noteq> [] then Some nav_html else None)
      | _ \<Rightarrow> None)"

definition extract_navigation_from_crawl_result ::
  "libs \<Rightarrow> extractor \<Rightarrow> crawl_result \<Rightarrow> error + page_navigation" where
  "extract_navigation_from_crawl_result L self cr =
     (if cleaned_html cr \<noteq> [] then
        (case extract_navigation_from_html L self (cleaned_html cr) (cr_url cr) of
           Inl e \<Rightarrow> Inl e
         | Inr enhanced_nav \<Rightarrow>
             Inr \<lparr>pn_url = cr_url cr,
                  extracted_navigation = extracted_navigation_of (extracted_content cr),
                  enhanced_navigation = Some enhanced_nav\<rparr>)
      else Inr \<lparr>pn_url = cr_url cr,
                extracted_navigation = extracted_navigation_of (extracted_content cr),
                enhanced_navigation = None\<rparr>)"

text \<open>
  The loop of \<open>enhance_navigation_extraction\<close>; the state is \<open>pages_with_navigation\<close>,
  \<open>all_nav_links\<close> and \<open>page_navigations\<close>.
\<close>

fun pages_loop ::
  "libs \<Rightarrow> extractor \<Rightarrow> crawl_result list \<Rightarrow> nat \<times> link_info list \<times> page_navigation list
     \<Rightarrow> error + nat \<times> link_info list \<times> page_navigation list" where
  "pages_loop L self [] st = Inr st"
| "pages_loop L self (result # rest) (n, all_links, pages) =
     (case extract_navigation_from_crawl_result L self result of
        Inl e \<Rightarrow> Inl e
      | Inr page_nav \<Rightarrow>
          (case enhanced_navigation page_nav of
             None \<Rightarrow> pages_loop L self rest (n, all_links, pages @ [page_nav])
           | Some nav \<Rightarrow>
               if all_nav_links nav \<noteq> []
               then pages_loop L self rest
                      (n + 1, all_links @ all_nav_links nav, pages @ [page_nav])
               else pages_loop L self rest (n, all_links, pages @ [page_nav])))"

definition enhance_navigation_extraction ::
  "libs \<Rightarrow> crawl_result list \<Rightarrow> string \<Rightarrow> error + site_navigation" where
  "enhance_navigation_extraction L crawl_results b =
     (case init L b of
        Inl e \<Rightarrow> Inl e
      | Inr self \<Rightarrow>
          (case pages_loop L self crawl_results (0, [], []) of
             Inl e \<Rightarrow> Inl e
           | Inr (n, all_links, pages) \<Rightarrow>
               (let unique_links = deduplicate_links all_links
                in Inr \<lparr>sn_base_url = b, total_pages = length crawl_results,
                        pages_with_navigation = n,
                        unique_navigation_links = unique_links,
                        sn_navigation_structure = build_navigation_structure unique_links,
                        page_navigations = pages\<rparr>)))"

section \<open>The content filter\<close>

text \<open>
  A filter object with its compiled rules. \<open>_compile_selectors\<close> and \<open>_compile_keywords\<close>
  end in \<open>list(set(...))\<close>, so the two lists have no duplicates and an arbitrary order.
\<close>

record content_filter =
  compiled_selectors :: "selector list"
  compiled_keywords :: "string list"

text \<open>
  \<open>for element in soup.select(selector): element.decompose()\<close> removes every element
  that the selector matched in the tree as it was when \<open>select\<close> ran: \<open>decompose_all P\<close>
  drops each element that satisfies \<open>P\<close> with its ancestors and earlier siblings of that
  moment, and everything below it.
\<close>

fun decompose_all :: "(loc \<Rightarrow> bool) \<Rightarrow> node list \<Rightarrow> node list \<Rightarrow> node list \<Rightarrow> node list"
  and decompose_in :: "(loc \<Rightarrow> bool) \<Rightarrow> node list \<Rightarrow> node \<Rightarrow> node" where
  "decompose_all P anc prev [] = []"
| "decompose_all P anc prev (c # cs) =
     (if is_element c \<and> P (c, anc, prev) then [] else [decompose_in P anc c])
     @ decompose_all P anc (prev @ [c]) cs"
| "decompose_in P anc (Text s) = Text s"
| "decompose_in P anc (Element n a cs) =
     Element n a (decompose_all P (Element n a cs # anc) [] cs)"

text \<open>
  The selector loop of \<open>filter_html\<close> with its state \<open>soup\<close> and \<open>removed_count\<close>. A
  selector that raises is skipped by the inner \<open>try\<close>.
\<close>

fun selectors_phase :: "selector list \<Rightarrow> node \<Rightarrow> nat \<Rightarrow> node \<times> nat" where
  "selectors_phase [] soup removed_count = (soup, removed_count)"
| "selectors_phase (sel # sels) soup removed_count =
     (case select sel soup [] of
        Inl e \<Rightarrow> selectors_phase sels soup removed_count
      | Inr elements \<Rightarrow>
          selectors_phase sels
            (case sel of
               Compound ts \<Rightarrow> decompose_in (matches ts) [] soup
             | Invalid s \<Rightarrow> soup)
            (removed_count + length elements))"

text \<open>\<open>_should_remove_by_keyword\<close>.\<close>

definition should_remove_by_keyword :: "node \<Rightarrow> string \<Rightarrow> bool" where
  "should_remove_by_keyword element keyword =
     (let t = strip (get_text element) in
      if length t < 200 \<and> contains (lower keyword) (lower t) then True
      else
        (let class_names = join_with '' '' (get_class element);
             element_id = (case get_attr element ''id'' of None \<Rightarrow> [] | Some v \<Rightarrow> v)
         in if contains (lower keyword) (lower class_names) \<or>
               contains (lower keyword) (lower element_id)
            then True else False))"

text \<open>
  Positions in the tree are lists of child indices from the document. \<open>find_all(text=...)\<close>
  gives the positions of the text nodes that the pattern matches, in document order.
\<close>

fun text_positions :: "(string \<Rightarrow> bool) \<Rightarrow> nat list \<Rightarrow> nat \<Rightarrow> node list \<Rightarrow> nat list list"
  and text_positions_in :: "(string \<Rightarrow> bool) \<Rightarrow> nat list \<Rightarrow> node \<Rightarrow> nat list list" where
  "text_positions m p i [] = []"
| "text_positions m p i (c # cs) =
     text_positions_in m (p @ [i]) c @ text_positions m p (i + 1) cs"
| "text_positions_in m q (Text s) = (if m s then [q] else [])"
| "text_positions_in m q (Element n a cs) = text_positions m q 0 cs"

fun node_at :: "node \<Rightarrow> nat list \<Rightarrow> node option" where
  "node_at el [] = Some el"
| "node_at el (i # p) =
     (if i < length (contents el) then node_at (contents el ! i) p else None)"

text \<open>The tree below position \<open>q\<close> without the nodes at the removed positions \<open>R\<close>.\<close>

fun without :: "nat list list \<Rightarrow> nat list \<Rightarrow> nat \<Rightarrow> node list \<Rightarrow> node list"
  and without_in :: "nat list list \<Rightarrow> nat list \<Rightarrow> node \<Rightarrow> node" where
  "without R p i [] = []"
| "without R p i (c # cs) =
     (if p @ [i] \<in> set R then [] else [without_in R (p @ [i]) c]) @ without R p (i + 1) cs"
| "without_in R q (Text s) = Text s"
| "without_in R q (Element n a cs) = Element n a (without R q 0 cs)"

text \<open>
  The inner loop of \<open>_filter_by_keywords\<close> for one keyword, over the text nodes found
  before the loop. \<open>R\<close> holds the positions of the parents decomposed so far. A
  decomposed element has lost its attributes and those of everything below it, so
  \<open>element.parent\<close> on a text node below a removed parent raises \<open>AttributeError\<close>.
  The document itself is different: decomposing it clears the document object only (it
  is not linked to its first child), so the nodes below stay as they are, and a text node
  at the top level then has a parent without a name and is passed over.
\<close>

fun keyword_loop ::
  "string \<Rightarrow> node \<Rightarrow> nat list list \<Rightarrow> nat list list \<Rightarrow> nat \<Rightarrow> error + nat list list \<times> nat"
  where
  "keyword_loop keyword soup [] R removed_count = Inr (R, removed_count)"
| "keyword_loop keyword soup (element # rest) R removed_count =
     (if list_ex (\<lambda>r. r \<noteq> [] \<and> prefix r element) R then Inl AttributeError
      else
        (case node_at soup (butlast element) of
           None \<Rightarrow> keyword_loop keyword soup rest R removed_count
         | Some parent \<Rightarrow>
             if \<not> (butlast element = [] \<and> [] \<in> set R) \<and> name parent \<noteq> [] \<and>
                should_remove_by_keyword (without_in R (butlast element) parent) keyword
             then keyword_loop keyword soup rest (butlast element # R) (removed_count + 1)
             else keyword_loop keyword soup rest R removed_count))"

text \<open>
  The tree after the removals; a decomposed document is left without name and contents,
  whatever was removed below it.
\<close>

definition after_removals :: "nat list list \<Rightarrow> node \<Rightarrow> node" where
  "after_removals R soup = (if [] \<in> set R then Element [] [] [] else without_in R [] soup)"

fun filter_by_keywords :: "libs \<Rightarrow> string list \<Rightarrow> node \<Rightarrow> nat \<Rightarrow> error + node \<times> nat" where
  "filter_by_keywords L [] soup removed_count = Inr (soup, removed_count)"
| "filter_by_keywords L (keyword # keywords) soup removed_count =
     (case re_compile L keyword of
        Inl e \<Rightarrow> Inl e
      | Inr m \<Rightarrow>
          (case keyword_loop keyword soup (text_positions_in m [] soup) [] removed_count of
             Inl e \<Rightarrow> Inl e
           | Inr (R, n) \<Rightarrow> filter_by_keywords L keywords (after_removals R soup) n))"

text \<open>
  \<open>filter_html\<close>. \<open>filter_html_try\<close> is the body of the outer \<open>try\<close>; it yields the
  returned string together with \<open>removed_count\<close>, the number that the function logs.
  The \<open>except Exception\<close> clause returns the input.
\<close>

definition filter_html_try :: "libs \<Rightarrow> content_filter \<Rightarrow> string \<Rightarrow> error + string \<times> nat" where
  "filter_html_try L self html_content =
     (case html_parser L html_content of
        Inl e \<Rightarrow> Inl e
      | Inr nodes \<Rightarrow>
          (let (soup, n) = selectors_phase (compiled_selectors self) (document nodes) 0 in
           case (if compiled_keywords self \<noteq> []
                 then filter_by_keywords L (compiled_keywords self) soup n
                 else Inr (soup, n)) of
             Inl e \<Rightarrow> Inl e
           | Inr (soup', n') \<Rightarrow>
               (case to_str L soup' of
                  Inl e \<Rightarrow> Inl e
                | Inr s \<Rightarrow> Inr (s, n'))))"

definition filter_html :: "libs \<Rightarrow> content_filter \<Rightarrow> string \<Rightarrow> error + string" where
  "filter_html L self html_content =
     (if html_content = [] then Inr html_content
      else
        (case filter_html_try L self html_content of
           Inl e \<Rightarrow> Inr html_content
         | Inr (s, n) \<Rightarrow> Inr s))"

text \<open>
  \<open>filter_text\<close>: \<open>keep_line\<close> is the inner loop over the keywords with its \<open>break\<close>,
  \<open>lines_loop\<close> the outer loop that builds \<open>filtered_lines\<close>.
\<close>

fun keep_line :: "string list \<Rightarrow> string \<Rightarrow> bool" where
  "keep_line [] line = True"
| "keep_line (keyword # keywords) line =
     (if contains (lower keyword) (lower line)
      then (if length (strip line) < 100 then False else keep_line keywords line)
      else keep_line keywords line)"

fun lines_loop :: "string list \<Rightarrow> string list \<Rightarrow> string list \<Rightarrow> string list" where
  "lines_loop keywords [] filtered_lines = filtered_lines"
| "lines_loop keywords (line # rest) filtered_lines =
     (if keep_line keywords line then lines_loop keywords rest (filtered_lines @ [line])
      else lines_loop keywords rest filtered_lines)"

definition filter_text :: "content_filter \<Rightarrow> string \<Rightarrow> string" where
  "filter_text self text_content =
     (if text_content = [] \<or> compiled_keywords self = [] then text_content
      else join_with [CHR 0x0A]
             (lines_loop (compiled_keywords self) (split_on (CHR 0x0A) text_content) []))"

section \<open>Notions used in the statements\<close>

text \<open>
  The candidates in the order of the scan: for each selector of the priority list in turn,
  the information extracted from each element that it matches, in document order.
\<close>

definition candidates_in_scan_order ::
  "libs \<Rightarrow> extractor \<Rightarrow> node \<Rightarrow> string \<Rightarrow> (error + nav_info) list" where
  "candidates_in_scan_order L self soup page_url =
     concat (map (\<lambda>sel. case select sel soup [] of
                           Inl e \<Rightarrow> [Inl e]
                         | Inr navs \<Rightarrow>
                             map (\<lambda>nav. extract_nav_element_info L self nav page_url sel) navs)
                 (nav_selectors self))"

text \<open>
  The ancestors of a link strictly between the link and the navigation element: its
  parents up to, and without, the navigation element.
\<close>

definition ancestors_within :: "loc \<Rightarrow> node \<Rightarrow> node list" where
  "ancestors_within link_element nav_element =
     takeWhile (\<lambda>x. x \<noteq> nav_element) (fst (snd link_element))"

text \<open>
  A selector is position-free when none of its tests looks beyond the element itself,
  as is the case for every selector of the catalogue and of the priority list.
\<close>

definition position_free :: "selector \<Rightarrow> bool" where
  "position_free sel = (case sel of Compound ts \<Rightarrow> First_child \<notin> set ts | Invalid s \<Rightarrow> True)"

section \<open>The libraries on the example documents\<close>

text \<open>
  The examples run over a record of library answers. Each table below lists what the
  library returns on the inputs that the examples use, and has no other entry: an input
  outside a table is outside the examples. The last document is markup that the parser
  rejects, \<open>//[\<close> is a reference that \<open>urljoin\<close> rejects, and \<open>(\<close> is a pattern that
  \<open>re.compile\<close> rejects.
\<close>

definition welcome_page :: string where
  "welcome_page = ''https://docs.example.com/welcome''"

definition welcome_html :: string where
  \<open>welcome_html =
     ''<nav><a href="/get-started">Get Started</a><a href="/models">Models</a></nav>''\<close>

definition welcome_nav :: node where
  "welcome_nav =
     Element ''nav'' []
       [Element ''a'' [(''href'', ''/get-started'')] [Text ''Get Started''],
        Element ''a'' [(''href'', ''/models'')] [Text ''Models'']]"

definition bracket_html :: string where
  \<open>bracket_html = ''<nav><a href="//[">Docs</a></nav>''\<close>

definition bracket_nav :: node where
  "bracket_nav = Element ''nav'' [] [Element ''a'' [(''href'', ''//['')] [Text ''Docs'']]"

definition nodejs_html :: string where
  \<open>nodejs_html = ''<nav><a href="/node.js/intro">Node</a></nav>''\<close>

definition nodejs_nav :: node where
  "nodejs_nav = Element ''nav'' [] [Element ''a'' [(''href'', ''/node.js/intro'')] [Text ''Node'']]"

definition menu_and_nav_html :: string where
  \<open>menu_and_nav_html =
     ''<div class="menu"><a href="/a">A</a></div><nav role="navigation"><a href="/b">B</a></nav>''\<close>

definition menu_div :: node where
  "menu_div = Element ''div'' [(''class'', ''menu'')] [Element ''a'' [(''href'', ''/a'')] [Text ''A'']]"

definition role_nav :: node where
  "role_nav =
     Element ''nav'' [(''role'', ''navigation'')] [Element ''a'' [(''href'', ''/b'')] [Text ''B'']]"

definition nested_menu_html :: string where
  \<open>nested_menu_html =
     ''<nav><ul class="dropdown-menu"><li><a href="/a">A</a></li></ul></nav>''\<close>

definition nested_menu_nav :: node where
  "nested_menu_nav =
     Element ''nav'' []
       [Element ''ul'' [(''class'', ''dropdown-menu'')]
          [Element ''li'' [] [Element ''a'' [(''href'', ''/a'')] [Text ''A'']]]]"

definition parsed_examples :: "(string \<times> (error + node list)) list" where
  "parsed_examples =
     [(welcome_html, Inr [welcome_nav]),
      (bracket_html, Inr [bracket_nav]),
      (nodejs_html, Inr [nodejs_nav]),
      (menu_and_nav_html, Inr [menu_div, role_nav]),
      (nested_menu_html, Inr [nested_menu_nav]),
      (''<div><p>1</p><p>2</p></div>'',
       Inr [Element ''div'' [] [Element ''p'' [] [Text ''1''], Element ''p'' [] [Text ''2'']]]),
      (''<div><p>2</p></div>'',
       Inr [Element ''div'' [] [Element ''p'' [] [Text ''2'']]]),
      (''<p>x</p><footer>f</footer>'',
       Inr [Element ''p'' [] [Text ''x''], Element ''footer'' [] [Text ''f'']]),
      (''<p>x</p>'', Inr [Element ''p'' [] [Text ''x'']]),
      (''<![x y]>'', Inl ParserRejectedMarkup)]"

definition html_parser_model :: "string \<Rightarrow> error + node list" where
  "html_parser_model s =
     (case map_of parsed_examples s of None \<Rightarrow> Inl ParserRejectedMarkup | Some r \<Rightarrow> r)"

definition rendered_examples :: "(node \<times> string) list" where
  \<open>rendered_examples =
     [(welcome_nav, welcome_html),
      (bracket_nav, bracket_html),
      (nodejs_nav, nodejs_html),
      (menu_div, ''<div class="menu"><a href="/a">A</a></div>''),
      (role_nav, ''<nav role="navigation"><a href="/b">B</a></nav>''),
      (nested_menu_nav, nested_menu_html),
      (document [Element ''div'' [] [Element ''p'' [] [Text ''2'']]], ''<div><p>2</p></div>''),
      (document [Element ''div'' [] []], ''<div></div>''),
      (document [Element ''p'' [] [Text ''x'']], ''<p>x</p>'')]\<close>

definition to_str_model :: "node \<Rightarrow> error + string" where
  "to_str_model el =
     (case map_of rendered_examples el of None \<Rightarrow> Inl RecursionError | Some s \<Rightarrow> Inr s)"

definition compiled_examples :: "(string \<times> (error + (string \<Rightarrow> bool))) list" where
  "compiled_examples =
     [(''ad'', Inr (\<lambda>s. contains ''ad'' (lower s))),
      (''('', Inl RegexError)]"

definition re_compile_model :: "string \<Rightarrow> error + (string \<Rightarrow> bool)" where
  "re_compile_model keyword =
     (case map_of compiled_examples keyword of None \<Rightarrow> Inl RegexError | Some r \<Rightarrow> r)"

definition https_docs :: "string \<Rightarrow> parse_result" where
  "https_docs p =
     \<lparr>scheme = ''https'', netloc = ''docs.example.com'', path = p, params = [], query = [],
      fragment = []\<rparr>"

definition parsed_urls :: "(string \<times> parse_result) list" where
  "parsed_urls =
     [(''https://docs.example.com'', https_docs []),
      (''https://docs.example.com/get-started'', https_docs ''/get-started''),
      (''https://docs.example.com/models'', https_docs ''/models''),
      (''https://docs.example.com/a'', https_docs ''/a''),
      (''https://docs.example.com/b'', https_docs ''/b''),
      (''https://docs.example.com/node.js/intro'', https_docs ''/node.js/intro'')]"

definition urlparse_model :: "string \<Rightarrow> error + parse_result" where
  "urlparse_model u = (case map_of parsed_urls u of None \<Rightarrow> Inl ValueError | Some r \<Rightarrow> Inr r)"

definition joined_urls :: "((string \<times> string) \<times> (error + string)) list" where
  "joined_urls =
     [((welcome_page, ''/get-started''), Inr ''https://docs.example.com/get-started''),
      ((welcome_page, ''/models''), Inr ''https://docs.example.com/models''),
      ((welcome_page, ''/a''), Inr ''https://docs.example.com/a''),
      ((welcome_page, ''/b''), Inr ''https://docs.example.com/b''),
      ((welcome_page, ''/node.js/intro''), Inr ''https://docs.example.com/node.js/intro''),
      ((welcome_page, ''//[''), Inl ValueError),
      ((''https://docs.example.com/a'', ''/a''), Inr ''https://docs.example.com/a''),
      ((''https://docs.example.com/models'', ''/get-started''),
         Inr ''https://docs.example.com/get-started''),
      ((''https://docs.example.com/models'', ''/models''),
         Inr ''https://docs.example.com/models'')]"

definition urljoin_model :: "string \<Rightarrow> string \<Rightarrow> error + string" where
  "urljoin_model b u =
     (case map_of joined_urls (b, u) of None \<Rightarrow> Inl ValueError | Some r \<Rightarrow> r)"

text \<open>
  With the default settings of the interpreter some hundreds of nested comparisons fit
  on the stack.
\<close>

definition example_libs :: libs where
  "example_libs =
     \<lparr>html_parser = html_parser_model, to_str = to_str_model, re_compile = re_compile_model,
      urlparse = urlparse_model, urljoin = urljoin_model, recursion_limit = 400\<rparr>"

text \<open>The extractor that \<open>__init__\<close> builds for the site of the examples.\<close>

definition docs_extractor :: extractor where
  "docs_extractor =
     \<lparr>base_url = ''https://docs.example.com'', domain = ''docs.example.com'',
      nav_selectors = nav_selector_list\<rparr>"

text \<open>An element with a long text that mentions \<open>ad\<close> and whose class does so too.\<close>

definition long_ad :: node where
  "long_ad =
     Element ''div'' [(''class'', ''ad-box'')] [Text (''ad '' @ replicate 200 (CHR ''x''))]"

section \<open>Properties of the deduplication\<close>

lemma dedup_loop_acc: "dedup_loop ls seen acc = acc @ dedup_loop ls seen []"
proof (induction ls arbitrary: seen acc)
  case Nil
  show ?case by simp
next
  case (Cons l ls)
  show ?case
  proof (cases "link_key l \<in> seen")
    case True
    then show ?thesis using Cons.IH [of seen acc] by simp
  next
    case False
    then show ?thesis
      using Cons.IH [of "insert (link_key l) seen" "acc @ [l]"]
        Cons.IH [of "insert (link_key l) seen" "[l]"]
      by simp
  qed
qed

lemma dedup_loop_Cons:
  "dedup_loop (l # ls) seen [] =
     (if link_key l \<in> seen then dedup_loop ls seen []
      else l # dedup_loop ls (insert (link_key l) seen) [])"
  using dedup_loop_acc [of ls "insert (link_key l) seen" "[l]"] by simp

lemma dedup_loop_filter:
  "filter (\<lambda>e. link_key e = k) (dedup_loop ls seen []) =
     (if k \<in> seen then [] else take 1 (filter (\<lambda>e. link_key e = k) ls))"
proof (induction ls arbitrary: seen)
  case Nil
  show ?case by simp
next
  case (Cons l ls)
  show ?case
    unfolding dedup_loop_Cons
    by (simp add: Cons.IH)
qed

lemma dedup_loop_keys_notin:
  "e \<in> set (dedup_loop ls seen []) \<Longrightarrow> link_key e \<notin> seen"
proof (induction ls arbitrary: seen)
  case Nil
  then show ?case by simp
next
  case (Cons l ls)
  then show ?case
    unfolding dedup_loop_Cons
    by (auto split: if_splits)
qed

lemma dedup_loop_distinct: "distinct (map link_key (dedup_loop ls seen []))"
proof (induction ls arbitrary: seen)
  case Nil
  show ?case by simp
next
  case (Cons l ls)
  show ?case
  proof (cases "link_key l \<in> seen")
    case True
    then show ?thesis unfolding dedup_loop_Cons using Cons.IH by simp
  next
    case False
    have "link_key l \<notin> link_key ` set (dedup_loop ls (insert (link_key l) seen) [])"
      using dedup_loop_keys_notin [of _ ls "insert (link_key l) seen"] by force
    then show ?thesis unfolding dedup_loop_Cons using False Cons.IH by simp
  qed
qed

lemma dedup_loop_subseq: "subseq (dedup_loop ls seen []) ls"
proof (induction ls arbitrary: seen)
  case Nil
  show ?case by simp
next
  case (Cons l ls)
  show ?case
    unfolding dedup_loop_Cons
    using Cons.IH [of seen] Cons.IH [of "insert (link_key l) seen"]
    by (auto intro: list_emb_Cons)
qed

lemma dedup_loop_id:
  "distinct (map link_key ls) \<Longrightarrow> link_key ` set ls \<inter> seen = {} \<Longrightarrow>
   dedup_loop ls seen [] = ls"
proof (induction ls arbitrary: seen)
  case Nil
  show ?case by simp
next
  case (Cons l ls)
  have "link_key l \<notin> seen" using Cons.prems(2) by auto
  moreover have "dedup_loop ls (insert (link_key l) seen) [] = ls"
    using Cons.prems by (intro Cons.IH) auto
  ultimately show ?case
    unfolding dedup_loop_Cons by simp
qed

text \<open>
  C5. Deduplication keyed on \<open>text + "|" + url\<close> keeps, for each key, exactly the first
  entry of the input with that key (the entries of the output with key \<open>k\<close> are the first
  entry of the input with key \<open>k\<close>, or none when the input has none), whatever the other
  fields of the later entries; when all keys are distinct every entry is returned.
\<close>

theorem deduplicate_links_first_wins:
  "(\<forall>k. filter (\<lambda>e. link_key e = k) (deduplicate_links ls) =
         take 1 (filter (\<lambda>e. link_key e = k) ls)) \<and>
   (distinct (map link_key ls) \<longrightarrow> deduplicate_links ls = ls)"
  unfolding deduplicate_links_def
  using dedup_loop_filter [of _ ls "{}"] dedup_loop_id [of ls "{}"]
  by simp

theorem deduplicate_links_first_wins_witness:
  "distinct (map link_key
      [\<lparr>ltext = ''Docs'', url = ''https://example.com/docs'', href = ''/docs'', level = 0,
        parent_text = None, css_classes = [], attributes = [(''href'', ''/docs'')]\<rparr>,
       \<lparr>ltext = ''Blog'', url = ''https://example.com/blog'', href = ''/blog'', level = 1,
        parent_text = None, css_classes = [], attributes = [(''href'', ''/blog'')]\<rparr>]) \<and>
   deduplicate_links
      [\<lparr>ltext = ''Docs'', url = ''https://example.com/docs'', href = ''/docs'', level = 0,
        parent_text = None, css_classes = [], attributes = [(''href'', ''/docs'')]\<rparr>,
       \<lparr>ltext = ''Blog'', url = ''https://example.com/blog'', href = ''/blog'', level = 1,
        parent_text = None, css_classes = [], attributes = [(''href'', ''/blog'')]\<rparr>] =
      [\<lparr>ltext = ''Docs'', url = ''https://example.com/docs'', href = ''/docs'', level = 0,
        parent_text = None, css_classes = [], attributes = [(''href'', ''/docs'')]\<rparr>,
       \<lparr>ltext = ''Blog'', url = ''https://example.com/blog'', href = ''/blog'', level = 1,
        parent_text = None, css_classes = [], attributes = [(''href'', ''/blog'')]\<rparr>]"
  using deduplicate_links_first_wins
    [of "[\<lparr>ltext = ''Docs'', url = ''https://example.com/docs'', href = ''/docs'', level = 0,
        parent_text = None, css_classes = [], attributes = [(''href'', ''/docs'')]\<rparr>,
       \<lparr>ltext = ''Blog'', url = ''https://example.com/blog'', href = ''/blog'', level = 1,
        parent_text = None, css_classes = [], attributes = [(''href'', ''/blog'')]\<rparr>]"]
  by (simp add: link_key_def)

text \<open>
  C10. Deduplication preserves order (its output is a subsequence of its input) and is
  idempotent.
\<close>

theorem deduplicate_links_subseq_idem:
  "subseq (deduplicate_links ls) ls \<and>
   deduplicate_links (deduplicate_links ls) = deduplicate_links ls"
proof
  show "subseq (deduplicate_links ls) ls"
    unfolding deduplicate_links_def by (rule dedup_loop_subseq)
next
  have "distinct (map link_key (dedup_loop ls {} []))"
    by (rule dedup_loop_distinct)
  then have "dedup_loop (dedup_loop ls {} []) {} [] = dedup_loop ls {} []"
    by (intro dedup_loop_id) auto
  then show "deduplicate_links (deduplicate_links ls) = deduplicate_links ls"
    unfolding deduplicate_links_def .
qed

section \<open>Properties of the content filter\<close>

lemma keep_line_iff:
  "keep_line kws line =
     (100 \<le> length (strip line) \<or> \<not> list_ex (\<lambda>k. contains (lower k) (lower line)) kws)"
  by (induction kws) auto

lemma keep_line_fun:
  "keep_line kws =
     (\<lambda>line. 100 \<le> length (strip line) \<or>
        \<not> list_ex (\<lambda>k. contains (lower k) (lower line)) kws)"
  by (rule ext) (rule keep_line_iff)

lemma lines_loop_filter:
  "lines_loop kws ls acc = acc @ filter (keep_line kws) ls"
  by (induction ls arbitrary: acc) auto

text \<open>
  C2, as stated, fails for elements: \<open>long_ad\<close> has a text of more than 200 characters
  that contains the keyword \<open>ad\<close>, and \<open>_should_remove_by_keyword\<close> still says that it is
  to be removed, because the keyword occurs in its class name.
\<close>

theorem keyword_length_gate_counterexample:
  "200 \<le> length (strip (get_text long_ad)) \<and>
   contains (lower ''ad'') (lower (strip (get_text long_ad))) \<and>
   should_remove_by_keyword long_ad ''ad''"
  by code_simp

text \<open>
  C2, amended. \<open>filter_text\<close> on a non-empty text with at least one keyword keeps exactly
  the lines whose stripped length is at least 100 or that contain no keyword
  (case-insensitively). An element with a stripped text under 200 characters that
  contains the keyword is to be removed; an element with a text of 200 characters or
  more is to be removed if and only if the keyword occurs in its class names or its id.
\<close>

theorem keyword_length_gate:
  "(text_content \<noteq> [] \<and> compiled_keywords self \<noteq> [] \<longrightarrow>
      filter_text self text_content =
        join_with [CHR 0x0A]
          (filter (\<lambda>line. 100 \<le> length (strip line) \<or>
                     \<not> list_ex (\<lambda>k. contains (lower k) (lower line)) (compiled_keywords self))
             (split_on (CHR 0x0A) text_content))) \<and>
   (length (strip (get_text element)) < 200 \<and>
    contains (lower keyword) (lower (strip (get_text element))) \<longrightarrow>
      should_remove_by_keyword element keyword) \<and>
   (200 \<le> length (strip (get_text element)) \<longrightarrow>
      should_remove_by_keyword element keyword =
        (contains (lower keyword) (lower (join_with '' '' (get_class element))) \<or>
         contains (lower keyword)
           (lower (case get_attr element ''id'' of None \<Rightarrow> [] | Some v \<Rightarrow> v))))"
proof (intro conjI impI)
  assume "text_content \<noteq> [] \<and> compiled_keywords self \<noteq> []"
  then show "filter_text self text_content =
        join_with [CHR 0x0A]
          (filter (\<lambda>line. 100 \<le> length (strip line) \<or>
                     \<not> list_ex (\<lambda>k. contains (lower k) (lower line)) (compiled_keywords self))
             (split_on (CHR 0x0A) text_content))"
    by (simp add: filter_text_def lines_loop_filter keep_line_fun)
next
  assume "length (strip (get_text element)) < 200 \<and>
    contains (lower keyword) (lower (strip (get_text element)))"
  then show "should_remove_by_keyword element keyword"
    by (simp add: should_remove_by_keyword_def)
next
  assume "200 \<le> length (strip (get_text element))"
  then show "should_remove_by_keyword element keyword =
        (contains (lower keyword) (lower (join_with '' '' (get_class element))) \<or>
         contains (lower keyword)
           (lower (case get_attr element ''id'' of None \<Rightarrow> [] | Some v \<Rightarrow> v)))"
    by (simp add: should_remove_by_keyword_def Let_def)
qed

theorem keyword_length_gate_witness:
  "filter_text \<lparr>compiled_selectors = [], compiled_keywords = [''share'']\<rparr>
      (''Title'' @ [CHR 0x0A] @ ''Share this'' @ [CHR 0x0A] @ ''Body'') =
     ''Title'' @ [CHR 0x0A] @ ''Body'' \<and>
   should_remove_by_keyword (Element ''p'' [] [Text ''Share this'']) ''share'' \<and>
   200 \<le> length (strip (get_text long_ad)) \<and>
   should_remove_by_keyword long_ad ''ad''"
  using keyword_length_gate
    [of "''Title'' @ [CHR 0x0A] @ ''Share this'' @ [CHR 0x0A] @ ''Body''"
        "\<lparr>compiled_selectors = [], compiled_keywords = [''share'']\<rparr>"
        "Element ''p'' [] [Text ''Share this'']" "''share''"]
    keyword_length_gate
      [of "[]" "\<lparr>compiled_selectors = [], compiled_keywords = []\<rparr>" long_ad "''ad''"]
  by code_simp

text \<open>
  C7. \<open>filter_html\<close> never raises: it returns a string whatever the libraries do. When
  anything inside its \<open>try\<close> block fails, and so when the parser fails, it returns its
  input; the empty input is returned as it is, before anything is parsed or removed.
\<close>

theorem filter_html_never_raises:
  "(\<exists>s. filter_html L self html_content = Inr s) \<and>
   (filter_html_try L self html_content = Inl e \<longrightarrow>
      filter_html L self html_content = Inr html_content) \<and>
   (html_parser L html_content = Inl e \<longrightarrow>
      filter_html L self html_content = Inr html_content) \<and>
   filter_html L self [] = Inr []"
  by (auto simp: filter_html_def filter_html_try_def split: sum.splits prod.splits)

theorem filter_html_never_raises_witness:
  "html_parser example_libs ''<![x y]>'' = Inl ParserRejectedMarkup \<and>
   filter_html_try example_libs \<lparr>compiled_selectors = [Compound [Tag ''footer'']],
       compiled_keywords = []\<rparr> ''<![x y]>'' = Inl ParserRejectedMarkup \<and>
   filter_html example_libs \<lparr>compiled_selectors = [Compound [Tag ''footer'']],
       compiled_keywords = []\<rparr> ''<![x y]>'' = Inr ''<![x y]>''"
proof -
  have p: "html_parser example_libs ''<![x y]>'' = Inl ParserRejectedMarkup"
    by code_simp
  have t: "filter_html_try example_libs \<lparr>compiled_selectors = [Compound [Tag ''footer'']],
       compiled_keywords = []\<rparr> ''<![x y]>'' = Inl ParserRejectedMarkup"
    by code_simp
  have "filter_html example_libs \<lparr>compiled_selectors = [Compound [Tag ''footer'']],
       compiled_keywords = []\<rparr> ''<![x y]>'' = Inr ''<![x y]>''"
    using filter_html_never_raises
      [of example_libs "\<lparr>compiled_selectors = [Compound [Tag ''footer'']],
         compiled_keywords = []\<rparr>" "''<![x y]>''" ParserRejectedMarkup] t
    by blast
  with p t show ?thesis by blast
qed

section \<open>Properties of the navigation extractor\<close>

lemma walk_fst:
  "map fst (walk anc prev cs) =
     concat (map (\<lambda>c. (if is_element c then [c] else []) @ elements_below c) cs)"
  "map fst (walk_node anc prev c) = (if is_element c then [c] else []) @ elements_below c"
  by (induction anc prev cs and anc prev c rule: walk_walk_node.induct) simp_all

lemma size_child: "c \<in> set cs \<Longrightarrow> size c < size (Element n a cs)"
  by (induction cs) auto

lemma walk_chain:
  "l \<in> set (walk anc prev cs) \<Longrightarrow>
     \<exists>inner. fst (snd l) = inner @ anc \<and> (\<forall>x \<in> set inner. \<exists>c \<in> set cs. size x \<le> size c)"
  "l \<in> set (walk_node anc prev c) \<Longrightarrow>
     \<exists>inner. fst (snd l) = inner @ anc \<and> (\<forall>x \<in> set inner. size x \<le> size c)"
proof (induction anc prev cs and anc prev c arbitrary: l and l rule: walk_walk_node.induct)
  case (1 anc prev)
  then show ?case by simp
next
  case (2 anc prev c cs)
  from "2.prems" consider "l \<in> set (walk_node anc prev c)" | "l \<in> set (walk anc (prev @ [c]) cs)"
    by auto
  then show ?case
  proof cases
    case 1
    from "2.IH"(1) [OF 1] show ?thesis by auto
  next
    case 2
    from "2.IH"(2) [OF 2] show ?thesis by auto
  qed
next
  case (3 anc prev s)
  then show ?case by simp
next
  case (4 anc prev n a cs)
  from "4.prems" consider "l = (Element n a cs, anc, prev)"
    | "l \<in> set (walk (Element n a cs # anc) [] cs)" by auto
  then show ?case
  proof cases
    case 1
    then show ?thesis by simp
  next
    case 2
    from "4.IH" [OF 2] obtain inner where
      i: "fst (snd l) = inner @ Element n a cs # anc"
      and s: "\<forall>x \<in> set inner. \<exists>c \<in> set cs. size x \<le> size c" by auto
    have "\<forall>x \<in> set (inner @ [Element n a cs]). size x \<le> size (Element n a cs)"
    proof
      fix x assume "x \<in> set (inner @ [Element n a cs])"
      then consider "x \<in> set inner" | "x = Element n a cs" by auto
      then show "size x \<le> size (Element n a cs)"
      proof cases
        case 1
        with s obtain c where "c \<in> set cs" "size x \<le> size c" by auto
        with size_child [of c cs n a] show ?thesis by simp
      next
        case 2
        then show ?thesis by simp
      qed
    qed
    with i show ?thesis by (intro exI [of _ "inner @ [Element n a cs]"]) simp
  qed
qed

lemma descendants_chain:
  assumes "l \<in> set (descendants el anc)"
  shows "\<exists>inner. fst (snd l) = inner @ el # anc \<and> el \<notin> set inner \<and>
           (\<forall>x \<in> set inner. size x < size el)"
proof -
  from walk_chain(1) [OF assms [unfolded descendants_def]] obtain inner where
    i: "fst (snd l) = inner @ el # anc"
    and s: "\<forall>x \<in> set inner. \<exists>c \<in> set (contents el). size x \<le> size c" by auto
  have lt: "\<forall>x \<in> set inner. size x < size el"
  proof
    fix x assume "x \<in> set inner"
    with s obtain c where c: "c \<in> set (contents el)" "size x \<le> size c" by auto
    then show "size x < size el"
      using size_child [of c "contents el" "name el" "attrs el"] by (cases el) auto
  qed
  then have "el \<notin> set inner" by auto
  with i lt show ?thesis by blast
qed

lemma tag_eq_size:
  "tag_eq d x y = Inr True \<Longrightarrow> size x = size y"
  "contents_eq d xs ys = Inr True \<Longrightarrow> length xs = length ys \<Longrightarrow>
     size_list size xs = size_list size ys"
proof (induction d x y and d xs ys rule: tag_eq_contents_eq.induct)
  case (1 d n a cs n' a' cs')
  then show ?case by (auto split: if_splits)
next
  case (7 d x xs y ys)
  from "7.prems"(1) have x: "tag_eq d x y = Inr True"
    by (auto split: sum.splits if_splits)
  with "7.prems" have xs: "contents_eq d xs ys = Inr True" by simp
  from "7.IH"(1) [OF x] "7.IH"(2) [OF x _ xs] "7.prems"(2) show ?case by simp
qed simp_all

lemma level_loop_count:
  "nav \<notin> set inner \<Longrightarrow> \<forall>x \<in> set inner. size x < size nav \<Longrightarrow>
   level_loop d lvl (inner @ nav # rest) nav = Inr n \<Longrightarrow>
   n = lvl + length (filter menu_container inner)"
proof (induction inner arbitrary: lvl)
  case Nil
  then show ?case by simp
next
  case (Cons x inner)
  from Cons.prems have ne: "x \<noteq> nav" and sz: "size x < size nav" by auto
  from Cons.prems(3) ne obtain b where b: "tag_eq d x nav = Inr b"
    by (cases "tag_eq d x nav") auto
  have "\<not> b"
  proof
    assume b
    with b tag_eq_size(1) [of d x nav] sz show False by simp
  qed
  with Cons.prems(3) ne b have
    "level_loop d (if menu_container x then lvl + 1 else lvl) (inner @ nav # rest) nav = Inr n"
    by simp
  from Cons.IH [OF _ _ this] Cons.prems(1,2) show ?case by simp
qed

lemma ancestors_within_chain:
  "fst (snd a) = inner @ nav # anc \<Longrightarrow> nav \<notin> set inner \<Longrightarrow> ancestors_within a nav = inner"
proof -
  assume c: "fst (snd a) = inner @ nav # anc" and n: "nav \<notin> set inner"
  from n have "takeWhile (\<lambda>x. x \<noteq> nav) (inner @ nav # anc) = inner"
    by (induction inner) auto
  with c show ?thesis by (simp add: ancestors_within_def)
qed

lemma link_level:
  assumes "a \<in> set (find_all_a_href nav anc)"
    and "calculate_link_level L a nav = Inr n"
  shows "nav \<in> set (fst (snd a)) \<and>
         n = length (filter menu_container (ancestors_within a nav))"
proof -
  from assms(1) have "a \<in> set (descendants nav anc)"
    by (simp add: find_all_a_href_def)
  from descendants_chain [OF this] obtain inner where
    i: "fst (snd a) = inner @ nav # anc" "nav \<notin> set inner"
      "\<forall>x \<in> set inner. size x < size nav" by blast
  from assms(2) i have "n = 0 + length (filter menu_container inner)"
    by (intro level_loop_count [of nav inner "recursion_limit L" 0 anc])
       (simp_all add: calculate_link_level_def)
  with i ancestors_within_chain [OF i(1,2)] show ?thesis by simp
qed

lemma links_loop_levels:
  "links_loop L self page_url nav as acc = Inr ls \<Longrightarrow>
   \<exists>kept new. subseq kept as \<and> ls = acc @ new \<and>
     list_all2 (\<lambda>a lk. ltext lk = get_text_strip (fst a) \<and>
                  get_attr (fst a) ''href'' = Some (href lk) \<and>
                  calculate_link_level L a nav = Inr (level lk)) kept new"
proof (induction as arbitrary: acc)
  case Nil
  then show ?case by simp
next
  case (Cons a as)
  have skip: ?case if "links_loop L self page_url nav as acc = Inr ls"
  proof -
    from Cons.IH [OF that] obtain kept new where
      "subseq kept as" "ls = acc @ new"
      "list_all2 (\<lambda>a lk. ltext lk = get_text_strip (fst a) \<and>
                  get_attr (fst a) ''href'' = Some (href lk) \<and>
                  calculate_link_level L a nav = Inr (level lk)) kept new"
      by blast
    then show ?thesis by (intro exI [of _ kept] exI [of _ new]) (auto intro: subseq_Cons')
  qed
  show ?case
  proof (cases "get_attr (fst a) ''href''")
    case None
    with Cons.prems show ?thesis by (intro skip) simp
  next
    case (Some h)
    show ?thesis
    proof (cases "h \<noteq> [] \<and> get_text_strip (fst a) \<noteq> []")
      case False
      with Some Cons.prems show ?thesis by (intro skip) (auto simp: Let_def)
    next
      case True
      with Some Cons.prems obtain u where u: "urljoin L page_url h = Inr u"
        by (cases "urljoin L page_url h") (auto simp: Let_def)
      show ?thesis
      proof (cases "is_valid_internal_url L self u")
        case False
        with Some True u Cons.prems show ?thesis by (intro skip) (auto simp: Let_def)
      next
        case v: True
        with Some True u Cons.prems obtain lv where
          lv: "calculate_link_level L a nav = Inr lv"
          by (cases "calculate_link_level L a nav") (auto simp: Let_def)
        let ?lk = "\<lparr>ltext = get_text_strip (fst a), url = u, href = h, level = lv,
          parent_text = get_parent_text a, css_classes = get_class (fst a),
          attributes = attrs (fst a)\<rparr>"
        from Some True u v lv Cons.prems
        have "links_loop L self page_url nav as (acc @ [?lk]) = Inr ls"
          by (auto simp: Let_def)
        from Cons.IH [OF this] obtain kept new where
          k: "subseq kept as" and n: "ls = (acc @ [?lk]) @ new"
          and r: "list_all2 (\<lambda>a lk. ltext lk = get_text_strip (fst a) \<and>
                  get_attr (fst a) ''href'' = Some (href lk) \<and>
                  calculate_link_level L a nav = Inr (level lk)) kept new"
          by blast
        show ?thesis
        proof (intro exI [of _ "a # kept"] exI [of _ "?lk # new"] conjI)
          show "subseq (a # kept) (a # as)" using k by simp
          show "ls = acc @ ?lk # new" using n by simp
          show "list_all2 (\<lambda>a lk. ltext lk = get_text_strip (fst a) \<and>
                  get_attr (fst a) ''href'' = Some (href lk) \<and>
                  calculate_link_level L a nav = Inr (level lk)) (a # kept) (?lk # new)"
            using r Some lv by simp
        qed
      qed
    qed
  qed
qed



lemma elements_loop_char:
  "elements_loop L self page_url sel navs st = Inr st' \<Longrightarrow>
   \<exists>infos. map Inr infos = map (\<lambda>nav. extract_nav_element_info L self nav page_url sel) navs \<and>
     fst st' = fst st @ filter (\<lambda>i. links i \<noteq> []) infos \<and>
     snd st' = (case snd st of None \<Rightarrow> find (\<lambda>i. links i \<noteq> []) infos | Some p \<Rightarrow> Some p)"
proof (induction navs arbitrary: st)
  case Nil
  then show ?case by (auto split: option.splits)
next
  case (Cons nav navs)
  from Cons.prems obtain info where
    info: "extract_nav_element_info L self nav page_url sel = Inr info"
    by (cases "extract_nav_element_info L self nav page_url sel") auto
  show ?case
  proof (cases "links info \<noteq> []")
    case True
    let ?st = "(fst st @ [info], if snd st = None then Some info else snd st)"
    from Cons.prems info True
    have "elements_loop L self page_url sel navs ?st = Inr st'" by simp
    from Cons.IH [OF this] obtain infos where
      m: "map Inr infos = map (\<lambda>nav. extract_nav_element_info L self nav page_url sel) navs"
      and f: "fst st' = fst ?st @ filter (\<lambda>i. links i \<noteq> []) infos"
      and s: "snd st' = (case snd ?st of None \<Rightarrow> find (\<lambda>i. links i \<noteq> []) infos
                         | Some p \<Rightarrow> Some p)"
      by blast
    show ?thesis
    proof (intro exI [of _ "info # infos"] conjI)
      show "map Inr (info # infos) =
        map (\<lambda>nav. extract_nav_element_info L self nav page_url sel) (nav # navs)"
        using m info by simp
      show "fst st' = fst st @ filter (\<lambda>i. links i \<noteq> []) (info # infos)"
        using f True by simp
      show "snd st' = (case snd st of None \<Rightarrow> find (\<lambda>i. links i \<noteq> []) (info # infos)
                       | Some p \<Rightarrow> Some p)"
        using s True by (cases "snd st") simp_all
    qed
  next
    case False
    from Cons.prems info False
    have "elements_loop L self page_url sel navs st = Inr st'" by simp
    from Cons.IH [OF this] obtain infos where
      m: "map Inr infos = map (\<lambda>nav. extract_nav_element_info L self nav page_url sel) navs"
      and f: "fst st' = fst st @ filter (\<lambda>i. links i \<noteq> []) infos"
      and s: "snd st' = (case snd st of None \<Rightarrow> find (\<lambda>i. links i \<noteq> []) infos
                         | Some p \<Rightarrow> Some p)"
      by blast
    show ?thesis
    proof (intro exI [of _ "info # infos"] conjI)
      show "map Inr (info # infos) =
        map (\<lambda>nav. extract_nav_element_info L self nav page_url sel) (nav # navs)"
        using m info by simp
      show "fst st' = fst st @ filter (\<lambda>i. links i \<noteq> []) (info # infos)"
        using f False by simp
      show "snd st' = (case snd st of None \<Rightarrow> find (\<lambda>i. links i \<noteq> []) (info # infos)
                       | Some p \<Rightarrow> Some p)"
        using s False by (cases "snd st") simp_all
    qed
  qed
qed

lemma find_append:
  "find P (xs @ ys) = (case find P xs of None \<Rightarrow> find P ys | Some x \<Rightarrow> Some x)"
  by (induction xs) auto

lemma selectors_loop_char:
  "selectors_loop L self soup page_url sels st = Inr st' \<Longrightarrow>
   \<exists>infos. map Inr infos =
       concat (map (\<lambda>sel. case select sel soup [] of
                            Inl e \<Rightarrow> [Inl e]
                          | Inr navs \<Rightarrow>
                              map (\<lambda>nav. extract_nav_element_info L self nav page_url sel) navs)
                 sels) \<and>
     fst st' = fst st @ filter (\<lambda>i. links i \<noteq> []) infos \<and>
     snd st' = (case snd st of None \<Rightarrow> find (\<lambda>i. links i \<noteq> []) infos | Some p \<Rightarrow> Some p)"
proof (induction sels arbitrary: st)
  case Nil
  then show ?case by (auto split: option.splits)
next
  case (Cons sel sels)
  from Cons.prems obtain navs where navs: "select sel soup [] = Inr navs"
    by (cases "select sel soup []") auto
  with Cons.prems obtain st1 where
    st1: "elements_loop L self page_url sel navs st = Inr st1"
    and rest: "selectors_loop L self soup page_url sels st1 = Inr st'"
    by (cases "elements_loop L self page_url sel navs st") auto
  from elements_loop_char [OF st1] obtain infos1 where
    m1: "map Inr infos1 = map (\<lambda>nav. extract_nav_element_info L self nav page_url sel) navs"
    and f1: "fst st1 = fst st @ filter (\<lambda>i. links i \<noteq> []) infos1"
    and s1: "snd st1 = (case snd st of None \<Rightarrow> find (\<lambda>i. links i \<noteq> []) infos1
                        | Some p \<Rightarrow> Some p)"
    by blast
  from Cons.IH [OF rest] obtain infos2 where
    m2: "map Inr infos2 =
       concat (map (\<lambda>sel. case select sel soup [] of
                            Inl e \<Rightarrow> [Inl e]
                          | Inr navs \<Rightarrow>
                              map (\<lambda>nav. extract_nav_element_info L self nav page_url sel) navs)
                 sels)"
    and f2: "fst st' = fst st1 @ filter (\<lambda>i. links i \<noteq> []) infos2"
    and s2: "snd st' = (case snd st1 of None \<Rightarrow> find (\<lambda>i. links i \<noteq> []) infos2
                        | Some p \<Rightarrow> Some p)"
    by blast
  show ?case
  proof (intro exI [of _ "infos1 @ infos2"] conjI)
    show "map Inr (infos1 @ infos2) =
       concat (map (\<lambda>sel. case select sel soup [] of
                            Inl e \<Rightarrow> [Inl e]
                          | Inr navs \<Rightarrow>
                              map (\<lambda>nav. extract_nav_element_info L self nav page_url sel) navs)
                 (sel # sels))"
      using m1 m2 navs by simp
    show "fst st' = fst st @ filter (\<lambda>i. links i \<noteq> []) (infos1 @ infos2)"
      using f1 f2 by simp
    show "snd st' = (case snd st of None \<Rightarrow> find (\<lambda>i. links i \<noteq> []) (infos1 @ infos2)
                     | Some p \<Rightarrow> Some p)"
      using s1 s2 by (cases "snd st") (simp_all add: find_append split: option.splits)
  qed
qed

lemma extract_char:
  assumes "extract_navigation_from_html L self html_content page_url = Inr r"
    and "html_parser L html_content = Inr nodes"
  shows "\<exists>infos. map Inr infos = candidates_in_scan_order L self (document nodes) page_url \<and>
     found_navigations r = filter (\<lambda>i. links i \<noteq> []) infos \<and>
     primary_navigation r = find (\<lambda>i. links i \<noteq> []) infos \<and>
     all_nav_links r = deduplicate_links (concat (map links (found_navigations r))) \<and>
     navigation_structure r = build_navigation_structure (all_nav_links r)"
proof -
  from assms obtain st where
    st: "selectors_loop L self (document nodes) page_url (nav_selectors self) ([], None) = Inr st"
    and r: "r = \<lparr>found_navigations = fst st, primary_navigation = snd st,
        all_nav_links = deduplicate_links (concat (map links (fst st))),
        navigation_structure =
          build_navigation_structure (deduplicate_links (concat (map links (fst st))))\<rparr>"
    by (auto simp: extract_navigation_from_html_def Let_def split: sum.splits)
  from selectors_loop_char [OF st] r show ?thesis
    unfolding candidates_in_scan_order_def by auto
qed


lemma dedup_loop_set: "e \<in> set (dedup_loop ls seen []) \<Longrightarrow> e \<in> set ls"
proof (induction ls arbitrary: seen)
  case Nil
  then show ?case by simp
next
  case (Cons l ls)
  then show ?case unfolding dedup_loop_Cons by (auto split: if_splits)
qed

lemma found_from_scan:
  assumes "extract_navigation_from_html L self html_content page_url = Inr r"
    and "html_parser L html_content = Inr nodes"
    and "c \<in> set (found_navigations r)"
  shows "\<exists>nav \<in> set (descendants (document nodes) []). \<exists>sel.
           extract_nav_element_info L self nav page_url sel = Inr c"
proof -
  from extract_char [OF assms(1,2)] obtain infos where
    m: "map Inr infos = candidates_in_scan_order L self (document nodes) page_url"
    and f: "found_navigations r = filter (\<lambda>i. links i \<noteq> []) infos" by blast
  from assms(3) f have "c \<in> set infos" by simp
  then have "(Inr c :: error + nav_info) \<in> set (map Inr infos)" by simp
  then have "Inr c \<in> set (candidates_in_scan_order L self (document nodes) page_url)"
    by (simp only: m)
  then obtain sel where
    sel: "Inr c \<in> set (case select sel (document nodes) [] of
                           Inl e \<Rightarrow> [Inl e]
                         | Inr navs \<Rightarrow>
                             map (\<lambda>nav. extract_nav_element_info L self nav page_url sel) navs)"
    by (auto simp: candidates_in_scan_order_def)
  show ?thesis
  proof (cases sel)
    case (Invalid s)
    with sel show ?thesis by simp
  next
    case (Compound ts)
    with sel obtain nav where "nav \<in> set (descendants (document nodes) [])"
      "extract_nav_element_info L self nav page_url sel = Inr c" by auto
    then show ?thesis by blast
  qed
qed

text \<open>
  C8. On the page \<open>https://docs.example.com/welcome\<close>, with the extractor that \<open>__init__\<close>
  builds for that host, the document \<open>welcome_html\<close> gives two links, to \<open>/get-started\<close>
  and \<open>/models\<close> of that host, both at level 0. In general the links of a candidate come,
  in order, from anchors found below its navigation element; the chain of parents of such
  an anchor reaches the navigation element; and the level stored in the link is the number
  of \<open>ul\<close>, \<open>ol\<close>, \<open>li\<close> and \<open>div\<close> elements with \<open>menu\<close> in the class names among the
  ancestors strictly between the anchor and the navigation element. Every entry of the
  link list of the page is a link of a candidate of the page, with the level stored there.
\<close>

theorem link_level_counts_menu_containers:
  "(case extract_navigation_from_html example_libs docs_extractor welcome_html
           ''https://docs.example.com/welcome'' of
      Inl e \<Rightarrow> False
    | Inr r \<Rightarrow> map (\<lambda>l. (url l, level l)) (all_nav_links r) =
               [(''https://docs.example.com/get-started'', 0),
                (''https://docs.example.com/models'', 0)]) \<and>
   init example_libs ''https://docs.example.com'' = Inr docs_extractor \<and>
   (extract_nav_element_info L self nav page_url sel = Inr info \<longrightarrow>
      (\<exists>kept. subseq kept (find_all_a_href (fst nav) (fst (snd nav))) \<and>
         list_all2 (\<lambda>a lk. ltext lk = get_text_strip (fst a) \<and>
                      get_attr (fst a) ''href'' = Some (href lk) \<and>
                      fst nav \<in> set (fst (snd a)) \<and>
                      level lk =
                        length (filter menu_container (ancestors_within a (fst nav))))
           kept (links info))) \<and>
   (extract_navigation_from_html L self html_content page_url = Inr r \<and>
    html_parser L html_content = Inr nodes \<longrightarrow>
      (\<forall>lk \<in> set (all_nav_links r).
         \<exists>nav \<in> set (descendants (document nodes) []). \<exists>sel info.
           extract_nav_element_info L self nav page_url sel = Inr info \<and>
           lk \<in> set (links info)))"
proof (intro conjI impI ballI)
  show "case extract_navigation_from_html example_libs docs_extractor welcome_html
           ''https://docs.example.com/welcome'' of
      Inl e \<Rightarrow> False
    | Inr r \<Rightarrow> map (\<lambda>l. (url l, level l)) (all_nav_links r) =
               [(''https://docs.example.com/get-started'', 0),
                (''https://docs.example.com/models'', 0)]"
    by code_simp
next
  show "init example_libs ''https://docs.example.com'' = Inr docs_extractor"
    by code_simp
next
  assume "extract_nav_element_info L self nav page_url sel = Inr info"
  then have "links_loop L self page_url (fst nav)
       (find_all_a_href (fst nav) (fst (snd nav))) [] = Inr (links info)"
    by (auto simp: extract_nav_element_info_def split: sum.splits)
  from links_loop_levels [OF this] obtain kept where
    k: "subseq kept (find_all_a_href (fst nav) (fst (snd nav)))"
    and r: "list_all2 (\<lambda>a lk. ltext lk = get_text_strip (fst a) \<and>
                  get_attr (fst a) ''href'' = Some (href lk) \<and>
                  calculate_link_level L a (fst nav) = Inr (level lk)) kept (links info)"
    by auto
  have sub: "x \<in> set (find_all_a_href (fst nav) (fst (snd nav)))" if "x \<in> set kept" for x
    using list_emb_set [OF k that] by auto
  have "list_all2 (\<lambda>a lk. ltext lk = get_text_strip (fst a) \<and>
                      get_attr (fst a) ''href'' = Some (href lk) \<and>
                      fst nav \<in> set (fst (snd a)) \<and>
                      level lk =
                        length (filter menu_container (ancestors_within a (fst nav))))
           kept (links info)"
  proof (rule list.rel_mono_strong [OF r])
    fix a lk
    assume a: "a \<in> set kept" and "lk \<in> set (links info)"
      and h: "ltext lk = get_text_strip (fst a) \<and>
                  get_attr (fst a) ''href'' = Some (href lk) \<and>
                  calculate_link_level L a (fst nav) = Inr (level lk)"
    from sub [OF a] have "a \<in> set (find_all_a_href (fst nav) (fst (snd nav)))" .
    from link_level [OF this, of L "level lk"] h
    show "ltext lk = get_text_strip (fst a) \<and>
                      get_attr (fst a) ''href'' = Some (href lk) \<and>
                      fst nav \<in> set (fst (snd a)) \<and>
                      level lk =
                        length (filter menu_container (ancestors_within a (fst nav)))"
      by simp
  qed
  with k show "\<exists>kept. subseq kept (find_all_a_href (fst nav) (fst (snd nav))) \<and>
         list_all2 (\<lambda>a lk. ltext lk = get_text_strip (fst a) \<and>
                      get_attr (fst a) ''href'' = Some (href lk) \<and>
                      fst nav \<in> set (fst (snd a)) \<and>
                      level lk =
                        length (filter menu_container (ancestors_within a (fst nav))))
           kept (links info)"
    by blast
next
  fix lk
  assume a: "extract_navigation_from_html L self html_content page_url = Inr r \<and>
    html_parser L html_content = Inr nodes"
    and lk: "lk \<in> set (all_nav_links r)"
  from a extract_char [of L self html_content page_url r nodes]
  have "all_nav_links r = deduplicate_links (concat (map links (found_navigations r)))"
    by blast
  with lk have "lk \<in> set (concat (map links (found_navigations r)))"
    by (auto simp: deduplicate_links_def dest: dedup_loop_set)
  then obtain c where c: "c \<in> set (found_navigations r)" "lk \<in> set (links c)" by auto
  from found_from_scan [OF _ _ c(1)] a c(2)
  show "\<exists>nav \<in> set (descendants (document nodes) []). \<exists>sel info.
           extract_nav_element_info L self nav page_url sel = Inr info \<and>
           lk \<in> set (links info)"
    by blast
qed


theorem link_level_counts_menu_containers_witness:
  "(case extract_nav_element_info example_libs docs_extractor
           (nested_menu_nav, [document [nested_menu_nav]], []) welcome_page
           (Compound [Tag ''nav'']) of
      Inl e \<Rightarrow> False
    | Inr info \<Rightarrow> map (\<lambda>lk. (ltext lk, href lk, level lk)) (links info) = [(''A'', ''/a'', 1)]) \<and>
   html_parser example_libs nested_menu_html = Inr [nested_menu_nav] \<and>
   (case extract_navigation_from_html example_libs docs_extractor nested_menu_html
           welcome_page of
      Inl e \<Rightarrow> False
    | Inr r \<Rightarrow>
        map (\<lambda>lk. (ltext lk, level lk)) (all_nav_links r) = [(''A'', 1)] \<and>
        (\<forall>lk \<in> set (all_nav_links r).
           \<exists>nav \<in> set (descendants (document [nested_menu_nav]) []). \<exists>sel info.
             extract_nav_element_info example_libs docs_extractor nav welcome_page sel =
               Inr info \<and>
             lk \<in> set (links info)))"
proof -
  let ?nav = "(nested_menu_nav, [document [nested_menu_nav]], [] :: node list)"
  let ?li = "Element ''li'' [] [Element ''a'' [(''href'', ''/a'')] [Text ''A'']]"
  let ?ul = "Element ''ul'' [(''class'', ''dropdown-menu'')] [?li]"
  let ?a = "(Element ''a'' [(''href'', ''/a'')] [Text ''A''],
      [?li, ?ul, nested_menu_nav, document [nested_menu_nav]], [] :: node list)"
  let ?i = "extract_nav_element_info example_libs docs_extractor ?nav welcome_page
      (Compound [Tag ''nav''])"
  let ?x = "extract_navigation_from_html example_libs docs_extractor nested_menu_html
      welcome_page"
  have anchors: "find_all_a_href (fst ?nav) (fst (snd ?nav)) = [?a]"
    by code_simp
  have count: "length (filter menu_container (ancestors_within ?a (fst ?nav))) = 1"
    by code_simp
  have "case ?i of Inl e \<Rightarrow> False
    | Inr info \<Rightarrow> map (\<lambda>lk. (ltext lk, href lk)) (links info) = [(''A'', ''/a'')]"
    by code_simp
  then obtain info where i: "?i = Inr info"
    and l: "map (\<lambda>lk. (ltext lk, href lk)) (links info) = [(''A'', ''/a'')]"
    by (cases ?i) auto
  from l obtain lk where lk: "links info = [lk]" "ltext lk = ''A''" "href lk = ''/a''"
    by auto
  from link_level_counts_menu_containers
    [of example_libs docs_extractor ?nav welcome_page "Compound [Tag ''nav'']" info] i
  obtain kept where
    k: "subseq kept (find_all_a_href (fst ?nav) (fst (snd ?nav)))"
    and r: "list_all2 (\<lambda>a lk. ltext lk = get_text_strip (fst a) \<and>
                      get_attr (fst a) ''href'' = Some (href lk) \<and>
                      fst ?nav \<in> set (fst (snd a)) \<and>
                      level lk =
                        length (filter menu_container (ancestors_within a (fst ?nav))))
           kept (links info)"
    by blast
  from r lk have "length kept = 1" by (auto dest: list_all2_lengthD)
  with k have "kept = [?a]" unfolding anchors
    by (cases kept) (auto simp: subseq_Cons' split: if_splits)
  with r lk count have lv: "level lk = 1" by simp
  with lk i have c1: "case ?i of Inl e \<Rightarrow> False
    | Inr info \<Rightarrow> map (\<lambda>lk. (ltext lk, href lk, level lk)) (links info) = [(''A'', ''/a'', 1)]"
    by simp
  have p: "html_parser example_libs nested_menu_html = Inr [nested_menu_nav]"
    by code_simp
  have "case ?x of Inl e \<Rightarrow> False
    | Inr r \<Rightarrow> map (\<lambda>lk. (ltext lk, level lk)) (all_nav_links r) = [(''A'', 1)]"
    by code_simp
  then obtain res where x: "?x = Inr res"
    and t: "map (\<lambda>lk. (ltext lk, level lk)) (all_nav_links res) = [(''A'', 1)]"
    by (cases ?x) auto
  from link_level_counts_menu_containers
    [of example_libs docs_extractor _ welcome_page _ _ nested_menu_html res
        "[nested_menu_nav]"] x p
  have "\<forall>lk \<in> set (all_nav_links res).
           \<exists>nav \<in> set (descendants (document [nested_menu_nav]) []). \<exists>sel info.
             extract_nav_element_info example_libs docs_extractor nav welcome_page sel =
               Inr info \<and>
             lk \<in> set (links info)"
    by blast
  with c1 p x t show ?thesis by simp
qed

text \<open>
  C1. The validity test looks for the extensions anywhere in the URL, not at the end of
  its path. The link \<open>/node.js/intro\<close> on the page \<open>https://docs.example.com/welcome\<close>
  resolves to a URL of the site's host with scheme \<open>https\<close> whose path ends in none of the
  extensions; the test rejects it because \<open>.js\<close> occurs inside the URL, and the page is
  left without navigation.
\<close>

theorem nodejs_link_dropped:
  "urljoin example_libs welcome_page ''/node.js/intro'' =
     Inr ''https://docs.example.com/node.js/intro'' \<and>
   urlparse example_libs ''https://docs.example.com/node.js/intro'' =
     Inr \<lparr>scheme = ''https'', netloc = ''docs.example.com'', path = ''/node.js/intro'',
          params = [], query = [], fragment = []\<rparr> \<and>
   domain docs_extractor = ''docs.example.com'' \<and>
   \<not> list_ex (\<lambda>ext. suffix ext ''/node.js/intro'')
        [''.pdf'', ''.jpg'', ''.png'', ''.gif'', ''.css'', ''.js'', ''.ico''] \<and>
   \<not> is_valid_internal_url example_libs docs_extractor
        ''https://docs.example.com/node.js/intro'' \<and>
   extract_navigation_from_html example_libs docs_extractor nodejs_html welcome_page =
     Inr \<lparr>found_navigations = [], primary_navigation = None, all_nav_links = [],
          navigation_structure = []\<rparr>"
  by code_simp










section \<open>Properties of the selector filter\<close>

lemma descendants_fst:
  "fst ` set (descendants el anc) = set (elements_below el)"
proof -
  have "set (map fst (descendants el anc)) = set (elements_below el)"
    unfolding descendants_def walk_fst by (cases el) simp_all
  then show ?thesis by simp
qed

lemma matches_simple_local:
  "t \<noteq> First_child \<Longrightarrow>
     matches_simple t (el, anc, prev) =
       matches_simple t (Element (name el) (attrs el) [], [], [])"
  by (cases t) (simp_all add: get_class_def get_attr_def)

lemma matches_local:
  "First_child \<notin> set ts \<Longrightarrow>
     matches ts l = matches ts (Element (name (fst l)) (attrs (fst l)) [], [], [])"
proof -
  assume a: "First_child \<notin> set ts"
  obtain el anc prev where l: "l = (el, anc, prev)" by (cases l)
  have "list_all (\<lambda>t. matches_simple t (el, anc, prev)) ts =
        list_all (\<lambda>t. matches_simple t (Element (name el) (attrs el) [], [], [])) ts"
  proof (rule list_all_cong [OF refl])
    fix t assume "t \<in> set ts"
    with a have "t \<noteq> First_child" by auto
    then show "matches_simple t (el, anc, prev) =
        matches_simple t (Element (name el) (attrs el) [], [], [])"
      by (rule matches_simple_local)
  qed
  then show ?thesis by (simp add: matches_def l)
qed

lemma decompose_in_shape:
  "name (decompose_in P anc c) = name c"
  "attrs (decompose_in P anc c) = attrs c"
  "is_element (decompose_in P anc c) = is_element c"
  by (cases c; simp)+

lemma decompose_origin:
  "\<forall>l. P l = Q (name (fst l)) (attrs (fst l)) \<Longrightarrow>
   e \<in> set (concat (map (\<lambda>c. (if is_element c then [c] else []) @ elements_below c)
                 (decompose_all P anc prev cs))) \<Longrightarrow>
     (\<exists>e' \<in> set (concat (map (\<lambda>c. (if is_element c then [c] else []) @ elements_below c) cs)).
         name e = name e' \<and> attrs e = attrs e') \<and> \<not> Q (name e) (attrs e)"
  "\<forall>l. P l = Q (name (fst l)) (attrs (fst l)) \<Longrightarrow>
   e \<in> set (elements_below (decompose_in P anc c)) \<Longrightarrow>
     (\<exists>e' \<in> set (elements_below c). name e = name e' \<and> attrs e = attrs e') \<and>
     \<not> Q (name e) (attrs e)"
proof (induction P anc prev cs and P anc c arbitrary: e and e
       rule: decompose_all_decompose_in.induct)
  case (1 P anc prev)
  then show ?case by simp
next
  case (2 P anc prev c cs)
  let ?f = "\<lambda>c. (if is_element c then [c] else []) @ elements_below c"
  note loc = "2.prems"(1)
  from "2.prems"(2) consider
    (here) "\<not> (is_element c \<and> P (c, anc, prev))" "e \<in> set (?f (decompose_in P anc c))"
    | (later) "e \<in> set (concat (map ?f (decompose_all P anc (prev @ [c]) cs)))"
    by (auto split: if_splits)
  then show ?case
  proof cases
    case here
    from here(2) consider (top) "is_element c" "e = decompose_in P anc c"
      | (below) "e \<in> set (elements_below (decompose_in P anc c))"
      by (auto simp: decompose_in_shape split: if_splits)
    then show ?thesis
    proof cases
      case top
      with here(1) have "\<not> P (c, anc, prev)" by simp
      then have "\<not> Q (name c) (attrs c)" using loc by simp
      with top show ?thesis by (auto simp: decompose_in_shape)
    next
      case below
      from "2.IH"(1) [OF here(1) loc below] show ?thesis by auto
    qed
  next
    case later
    from "2.IH"(2) [OF loc later] show ?thesis by auto
  qed
next
  case (3 P anc s)
  then show ?case by simp
next
  case (4 P anc n a cs)
  from "4.prems" have "e \<in> set (concat (map (\<lambda>c. (if is_element c then [c] else []) @
      elements_below c) (decompose_all P (Element n a cs # anc) [] cs)))" by simp
  from "4.IH" [OF "4.prems"(1) this] show ?case by simp
qed

lemma decompose_id:
  "\<forall>l. P l = Q (name (fst l)) (attrs (fst l)) \<Longrightarrow>
   \<forall>e \<in> set (concat (map (\<lambda>c. (if is_element c then [c] else []) @ elements_below c) cs)).
      \<not> Q (name e) (attrs e) \<Longrightarrow> decompose_all P anc prev cs = cs"
  "\<forall>l. P l = Q (name (fst l)) (attrs (fst l)) \<Longrightarrow>
   \<forall>e \<in> set (elements_below c). \<not> Q (name e) (attrs e) \<Longrightarrow> decompose_in P anc c = c"
proof (induction P anc prev cs and P anc c rule: decompose_all_decompose_in.induct)
  case (1 P anc prev)
  then show ?case by simp
next
  case (2 P anc prev c cs)
  note loc = "2.prems"(1)
  from "2.prems"(2) have a: "is_element c \<longrightarrow> \<not> Q (name c) (attrs c)"
    and b: "\<forall>e \<in> set (elements_below c). \<not> Q (name e) (attrs e)"
    and c: "\<forall>e \<in> set (concat (map (\<lambda>c. (if is_element c then [c] else []) @
        elements_below c) cs)). \<not> Q (name e) (attrs e)"
    by auto
  from a have n: "\<not> (is_element c \<and> P (c, anc, prev))" using loc by simp
  with "2.IH"(1) [OF n loc b] "2.IH"(2) [OF loc c] show ?case by simp
next
  case (3 P anc s)
  then show ?case by simp
next
  case (4 P anc n a cs)
  from "4.prems"(2) have "\<forall>e \<in> set (concat (map (\<lambda>c. (if is_element c then [c] else []) @
      elements_below c) cs)). \<not> Q (name e) (attrs e)" by simp
  from "4.IH" [OF "4.prems"(1) this] show ?case by simp
qed

lemma selectors_phase_root:
  "name (fst (selectors_phase S soup n)) = name soup \<and>
   attrs (fst (selectors_phase S soup n)) = attrs soup \<and>
   is_element (fst (selectors_phase S soup n)) = is_element soup"
proof (induction S arbitrary: soup n)
  case Nil
  then show ?case by simp
next
  case (Cons sel S)
  show ?case
  proof (cases sel)
    case (Compound ts)
    then show ?thesis using Cons [of "decompose_in (matches ts) [] soup"]
      by (simp add: decompose_in_shape)
  next
    case (Invalid s)
    then show ?thesis using Cons by simp
  qed
qed

lemma selectors_phase_origin:
  "list_all position_free S \<Longrightarrow>
   e \<in> set (elements_below (fst (selectors_phase S soup n))) \<Longrightarrow>
     (\<exists>e' \<in> set (elements_below soup). name e = name e' \<and> attrs e = attrs e') \<and>
     (\<forall>ts. Compound ts \<in> set S \<longrightarrow> \<not> matches ts (Element (name e) (attrs e) [], [], []))"
proof (induction S arbitrary: soup n e)
  case Nil
  then show ?case by auto
next
  case (Cons sel S)
  from Cons.prems have pf: "list_all position_free S" by simp
  show ?case
  proof (cases sel)
    case (Invalid s)
    with Cons.prems have "e \<in> set (elements_below (fst (selectors_phase S soup n)))" by simp
    from Cons.IH [OF pf this] Invalid show ?thesis by auto
  next
    case (Compound ts)
    let ?soup1 = "decompose_in (matches ts) [] soup"
    from Compound Cons.prems have fc: "First_child \<notin> set ts"
      by (simp add: position_free_def)
    from Compound Cons.prems have
      "e \<in> set (elements_below (fst (selectors_phase S ?soup1
          (n + length (filter (matches ts) (descendants soup []))))))"
      by simp
    from Cons.IH [OF pf this] obtain e1 where
      e1: "e1 \<in> set (elements_below ?soup1)" "name e = name e1" "attrs e = attrs e1"
      and rest: "\<forall>ts. Compound ts \<in> set S \<longrightarrow>
          \<not> matches ts (Element (name e) (attrs e) [], [], [])"
      by blast
    have loc: "\<forall>l. matches ts l =
        (\<lambda>n a. matches ts (Element n a [], [], [])) (name (fst l)) (attrs (fst l))"
      using matches_local [OF fc] by blast
    from decompose_origin(2) [of "matches ts" "\<lambda>n a. matches ts (Element n a [], [], [])",
        OF loc e1(1)]
    obtain e' where "e' \<in> set (elements_below soup)" "name e1 = name e'"
      "attrs e1 = attrs e'" and nq: "\<not> matches ts (Element (name e1) (attrs e1) [], [], [])"
      by blast
    with e1 rest Compound show ?thesis by auto
  qed
qed

lemma selectors_phase_id:
  "list_all position_free S \<Longrightarrow>
   \<forall>e \<in> set (elements_below soup). \<forall>ts. Compound ts \<in> set S \<longrightarrow>
      \<not> matches ts (Element (name e) (attrs e) [], [], []) \<Longrightarrow>
   selectors_phase S soup n = (soup, n)"
proof (induction S arbitrary: n)
  case Nil
  then show ?case by simp
next
  case (Cons sel S)
  from Cons.prems have pf: "list_all position_free S" by simp
  from Cons.prems have r: "\<forall>e \<in> set (elements_below soup). \<forall>ts. Compound ts \<in> set S \<longrightarrow>
      \<not> matches ts (Element (name e) (attrs e) [], [], [])" by simp
  show ?case
  proof (cases sel)
    case (Invalid s)
    with Cons.IH [OF pf r] show ?thesis by simp
  next
    case (Compound ts)
    from Compound Cons.prems have fc: "First_child \<notin> set ts"
      by (simp add: position_free_def)
    from Compound Cons.prems have
      no: "\<forall>e \<in> set (elements_below soup). \<not> matches ts (Element (name e) (attrs e) [], [], [])"
      by simp
    have loc: "\<forall>l. matches ts l =
        (\<lambda>n a. matches ts (Element n a [], [], [])) (name (fst l)) (attrs (fst l))"
      using matches_local [OF fc] by blast
    have d: "decompose_in (matches ts) [] soup = soup"
      by (rule decompose_id(2) [of "matches ts" "\<lambda>n a. matches ts (Element n a [], [], [])",
            OF loc no])
    have "\<not> matches ts l" if "l \<in> set (descendants soup [])" for l
    proof -
      from that have "fst l \<in> set (elements_below soup)"
        using descendants_fst [of soup "[]"] by force
      with no loc show ?thesis by blast
    qed
    then have f: "filter (matches ts) (descendants soup []) = []"
      by (simp add: filter_empty_conv)
    from Compound d f Cons.IH [OF pf r, of n] show ?thesis by simp
  qed
qed


text \<open>
  C4, as stated, fails: with the custom selector \<open>p:first-child\<close> the filter removes the
  first paragraph of \<open><div><p>1</p><p>2</p></div>\<close>, and on its own output it removes
  one element more, the paragraph that has become the first child.
\<close>

theorem selector_filter_idempotent_counterexample:
  \<open>filter_html_try example_libs
     \<lparr>compiled_selectors = [Compound [Tag ''p'', First_child]], compiled_keywords = []\<rparr>
     ''<div><p>1</p><p>2</p></div>'' = Inr (''<div><p>2</p></div>'', 1) \<and>
   filter_html_try example_libs
     \<lparr>compiled_selectors = [Compound [Tag ''p'', First_child]], compiled_keywords = []\<rparr>
     ''<div><p>2</p></div>'' = Inr (''<div></div>'', 1)\<close>
  by code_simp

text \<open>
  C4, amended. For selectors that test the element alone (its tag name, classes, id and
  attributes, as every preset selector does) the selector filter is idempotent on the
  document: run on the tree that it has left, it removes nothing and leaves the tree as it
  is. For the cleaned string this gives: when no keywords are configured and every element
  of the parsed cleaned string has the tag name and the attributes of an element that the
  first run has left, filtering the cleaned string removes zero elements.
\<close>

theorem selector_filter_idempotent:
  "(list_all position_free S \<longrightarrow>
      selectors_phase S (fst (selectors_phase S soup n)) 0 =
        (fst (selectors_phase S soup n), 0)) \<and>
   (list_all position_free (compiled_selectors self) \<and> compiled_keywords self = [] \<and>
    html_parser L html_content = Inr nodes \<and>
    filter_html_try L self html_content = Inr (cleaned, k) \<and>
    html_parser L cleaned = Inr nodes' \<and>
    (\<forall>e \<in> set (elements_below (document nodes')).
       \<exists>e' \<in> set (elements_below
                    (fst (selectors_phase (compiled_selectors self) (document nodes) 0))).
         name e = name e' \<and> attrs e = attrs e') \<and>
    to_str L (document nodes') = Inr s' \<longrightarrow>
      filter_html_try L self cleaned = Inr (s', 0))"
proof (intro conjI impI)
  assume pf: "list_all position_free S"
  let ?soup' = "fst (selectors_phase S soup n)"
  have "\<forall>e \<in> set (elements_below ?soup'). \<forall>ts. Compound ts \<in> set S \<longrightarrow>
      \<not> matches ts (Element (name e) (attrs e) [], [], [])"
    using selectors_phase_origin [OF pf] by blast
  from selectors_phase_id [OF pf this]
  show "selectors_phase S ?soup' 0 = (?soup', 0)" .
next
  let ?S = "compiled_selectors self"
  let ?soup' = "fst (selectors_phase ?S (document nodes) 0)"
  assume a: "list_all position_free ?S \<and> compiled_keywords self = [] \<and>
    html_parser L html_content = Inr nodes \<and>
    filter_html_try L self html_content = Inr (cleaned, k) \<and>
    html_parser L cleaned = Inr nodes' \<and>
    (\<forall>e \<in> set (elements_below (document nodes')).
       \<exists>e' \<in> set (elements_below ?soup'). name e = name e' \<and> attrs e = attrs e') \<and>
    to_str L (document nodes') = Inr s'"
  then have pf: "list_all position_free ?S" by simp
  have "\<forall>e \<in> set (elements_below (document nodes')). \<forall>ts. Compound ts \<in> set ?S \<longrightarrow>
      \<not> matches ts (Element (name e) (attrs e) [], [], [])"
  proof (intro ballI allI impI)
    fix e ts
    assume e: "e \<in> set (elements_below (document nodes'))" and ts: "Compound ts \<in> set ?S"
    with a obtain e' where e': "e' \<in> set (elements_below ?soup')"
      "name e = name e'" "attrs e = attrs e'" by blast
    from selectors_phase_origin [OF pf e'(1)] ts
    have "\<not> matches ts (Element (name e') (attrs e') [], [], [])" by blast
    with e' show "\<not> matches ts (Element (name e) (attrs e) [], [], [])" by simp
  qed
  from selectors_phase_id [OF pf this]
  have "selectors_phase ?S (document nodes') 0 = (document nodes', 0)" .
  with a show "filter_html_try L self cleaned = Inr (s', 0)"
    by (simp add: filter_html_try_def)
qed

theorem selector_filter_idempotent_witness:
  \<open>selectors_phase [Compound [Tag ''footer'']]
     (document [Element ''p'' [] [Text ''x''], Element ''footer'' [] [Text ''f'']]) 0 =
     (document [Element ''p'' [] [Text ''x'']], 1) \<and>
   selectors_phase [Compound [Tag ''footer'']] (document [Element ''p'' [] [Text ''x'']]) 0 =
     (document [Element ''p'' [] [Text ''x'']], 0) \<and>
   filter_html_try example_libs
     \<lparr>compiled_selectors = [Compound [Tag ''footer'']], compiled_keywords = []\<rparr>
     ''<p>x</p><footer>f</footer>'' = Inr (''<p>x</p>'', 1) \<and>
   filter_html_try example_libs
     \<lparr>compiled_selectors = [Compound [Tag ''footer'']], compiled_keywords = []\<rparr>
     ''<p>x</p>'' = Inr (''<p>x</p>'', 0)\<close>
proof -
  let ?S = "[Compound [Tag ''footer'']]"
  let ?F = "\<lparr>compiled_selectors = ?S, compiled_keywords = []\<rparr>"
  let ?p = "Element ''p'' [] [Text ''x'']"
  let ?soup = "document [?p, Element ''footer'' [] [Text ''f'']]"
  have pf: "list_all position_free ?S" by code_simp
  have r1: "selectors_phase ?S ?soup 0 = (document [?p], 1)" by code_simp
  from selector_filter_idempotent [of ?S ?soup 0] pf r1
  have r2: "selectors_phase ?S (document [?p]) 0 = (document [?p], 0)" by simp
  have f1: "filter_html_try example_libs ?F ''<p>x</p><footer>f</footer>'' =
      Inr (''<p>x</p>'', 1)" by code_simp
  have p1: "html_parser example_libs ''<p>x</p><footer>f</footer>'' =
      Inr [?p, Element ''footer'' [] [Text ''f'']]" by code_simp
  have p2: "html_parser example_libs ''<p>x</p>'' = Inr [?p]" by code_simp
  have sh: "\<forall>e \<in> set (elements_below (document [?p])).
       \<exists>e' \<in> set (elements_below (fst (selectors_phase ?S ?soup 0))).
         name e = name e' \<and> attrs e = attrs e'"
    unfolding r1 by (simp add: document_def)
  have t: "to_str example_libs (document [?p]) = Inr ''<p>x</p>''" by code_simp
  from selector_filter_idempotent
    [of _ _ _ ?F example_libs "''<p>x</p><footer>f</footer>''"
        "[?p, Element ''footer'' [] [Text ''f'']]" "''<p>x</p>''" 1 "[?p]" "''<p>x</p>''"]
    pf f1 p1 p2 sh t
  have f2: "filter_html_try example_libs ?F ''<p>x</p>'' = Inr (''<p>x</p>'', 0)" by simp
  from r1 r2 f1 f2 show ?thesis by blast
qed

section \<open>Properties of the site aggregation\<close>

lemma levels_add_keys:
  "map fst (levels_add lv l levels) =
     (if lv \<in> fst ` set levels then map fst levels else map fst levels @ [lv])"
  by (induction levels) (auto split: if_splits)

lemma levels_add_map_of:
  "map_of (levels_add lv l levels) k =
     (if k = lv then Some ((case map_of levels lv of None \<Rightarrow> [] | Some v \<Rightarrow> v) @ [l])
      else map_of levels k)"
  by (induction levels) auto

lemma group_loop_inv:
  "distinct (map fst levels) \<Longrightarrow> fst ` set levels = level ` set xs \<Longrightarrow>
   (\<forall>k \<in> level ` set xs. map_of levels k = Some (filter (\<lambda>l. level l = k) xs)) \<Longrightarrow>
   distinct (map fst (group_loop ls levels)) \<and>
   fst ` set (group_loop ls levels) = level ` set (xs @ ls) \<and>
   (\<forall>k \<in> level ` set (xs @ ls).
      map_of (group_loop ls levels) k = Some (filter (\<lambda>l. level l = k) (xs @ ls)))"
proof (induction ls arbitrary: levels xs)
  case Nil
  then show ?case by simp
next
  case (Cons l ls)
  let ?lv = "level l"
  let ?levels = "levels_add ?lv l levels"
  have d: "distinct (map fst ?levels)"
    using Cons.prems(1) by (simp add: levels_add_keys)
  have "set (map fst ?levels) = insert ?lv (set (map fst levels))"
    by (auto simp: levels_add_keys)
  then have k: "fst ` set ?levels = level ` set (xs @ [l])"
    using Cons.prems(2) by auto
  have old: "(case map_of levels ?lv of None \<Rightarrow> [] | Some v \<Rightarrow> v) =
     filter (\<lambda>x. level x = ?lv) xs"
  proof (cases "?lv \<in> level ` set xs")
    case True
    with Cons.prems(3) have "map_of levels ?lv = Some (filter (\<lambda>x. level x = ?lv) xs)"
      by blast
    then show ?thesis by simp
  next
    case False
    then have "filter (\<lambda>x. level x = ?lv) xs = []"
      unfolding filter_empty_conv by (metis imageI)
    moreover from False Cons.prems(2) have "map_of levels ?lv = None"
      by (simp add: map_of_eq_None_iff)
    ultimately show ?thesis by simp
  qed
  have m: "\<forall>k \<in> level ` set (xs @ [l]).
     map_of ?levels k = Some (filter (\<lambda>x. level x = k) (xs @ [l]))"
  proof
    fix k assume "k \<in> level ` set (xs @ [l])"
    then consider "k = ?lv" | "k \<noteq> ?lv" "k \<in> level ` set xs" by auto
    then show "map_of ?levels k = Some (filter (\<lambda>x. level x = k) (xs @ [l]))"
    proof cases
      case 1
      then show ?thesis by (simp add: levels_add_map_of old)
    next
      case 2
      with Cons.prems(3) have "map_of levels k = Some (filter (\<lambda>x. level x = k) xs)"
        by blast
      with 2 show ?thesis by (simp add: levels_add_map_of)
    qed
  qed
  have e: "(xs @ [l]) @ ls = xs @ l # ls" by simp
  show ?case
    unfolding group_loop.simps using Cons.IH [OF d k m, unfolded e] .
qed

lemma sorted_concat_replicate:
  "sorted ks \<Longrightarrow> sorted (concat (map (\<lambda>k. replicate (n k) k) ks))"
  by (induction ks) (auto simp: sorted_append)

lemma concat_single_key:
  "distinct ks \<Longrightarrow>
   concat (map (\<lambda>k. if k = k0 then A else []) ks) = (if k0 \<in> set ks then A else [])"
  by (induction ks) auto

lemma build_navigation_structure_eq:
  "\<exists>ks. sorted ks \<and> distinct ks \<and> set ks = level ` set ls \<and>
     build_navigation_structure ls =
       concat (map (\<lambda>lv. map (structure_item_of lv) (filter (\<lambda>l. level l = lv) ls)) ks)"
proof -
  let ?L = "group_loop ls []"
  have p1: "distinct (map fst ([] :: (nat \<times> link_info list) list))" by simp
  have p2: "fst ` set ([] :: (nat \<times> link_info list) list) =
      level ` set ([] :: link_info list)" by simp
  have p3: "\<forall>k \<in> level ` set ([] :: link_info list).
      map_of ([] :: (nat \<times> link_info list) list) k = Some (filter (\<lambda>l. level l = k) [])"
    by simp
  note inv = group_loop_inv [OF p1 p2 p3, of ls, unfolded append_Nil]
  from inv have d: "distinct (map fst ?L)" by (rule conjunct1)
  from inv have k: "fst ` set ?L = level ` set ls" by (rule conjunct2 [THEN conjunct1])
  from inv have
    m: "\<forall>k \<in> level ` set ls. map_of ?L k = Some (filter (\<lambda>l. level l = k) ls)"
    by (rule conjunct2 [THEN conjunct2])
  let ?ks = "sort (map fst ?L)"
  have "build_navigation_structure ls =
     concat (map (\<lambda>lv. map (structure_item_of lv)
                         (case map_of ?L lv of None \<Rightarrow> [] | Some v \<Rightarrow> v)) ?ks)"
    by (simp add: build_navigation_structure_def Let_def)
  also have "\<dots> =
     concat (map (\<lambda>lv. map (structure_item_of lv) (filter (\<lambda>l. level l = lv) ls)) ?ks)"
  proof -
    have "map (\<lambda>lv. map (structure_item_of lv)
                         (case map_of ?L lv of None \<Rightarrow> [] | Some v \<Rightarrow> v)) ?ks =
          map (\<lambda>lv. map (structure_item_of lv) (filter (\<lambda>l. level l = lv) ls)) ?ks"
    proof (rule map_cong [OF refl])
      fix lv assume "lv \<in> set ?ks"
      then have "lv \<in> level ` set ls" using k by simp
      with m have "map_of ?L lv = Some (filter (\<lambda>l. level l = lv) ls)" by blast
      then show "map (structure_item_of lv)
                         (case map_of ?L lv of None \<Rightarrow> [] | Some v \<Rightarrow> v) =
          map (structure_item_of lv) (filter (\<lambda>l. level l = lv) ls)" by simp
    qed
    then show ?thesis by (rule arg_cong)
  qed
  finally have "build_navigation_structure ls =
     concat (map (\<lambda>lv. map (structure_item_of lv) (filter (\<lambda>l. level l = lv) ls)) ?ks)" .
  moreover have "sorted ?ks" "distinct ?ks" "set ?ks = level ` set ls"
    using d k by simp_all
  ultimately show ?thesis by blast
qed

lemma build_navigation_structure_sorted:
  "sorted (map s_level (build_navigation_structure ls))"
proof -
  from build_navigation_structure_eq [of ls] obtain ks where
    ks: "sorted ks" and
    b: "build_navigation_structure ls =
       concat (map (\<lambda>lv. map (structure_item_of lv) (filter (\<lambda>l. level l = lv) ls)) ks)"
    by blast
  have "map s_level (build_navigation_structure ls) =
     concat (map (\<lambda>lv. replicate (length (filter (\<lambda>l. level l = lv) ls)) lv) ks)"
    unfolding b
    by (simp add: map_concat comp_def structure_item_of_def map_replicate_const)
  with ks show ?thesis by (simp add: sorted_concat_replicate)
qed

lemma build_navigation_structure_level:
  "filter (\<lambda>i. s_level i = lv) (build_navigation_structure ls) =
     map (structure_item_of lv) (filter (\<lambda>l. level l = lv) ls)"
proof -
  from build_navigation_structure_eq [of ls] obtain ks where
    ks: "distinct ks" "set ks = level ` set ls" and
    b: "build_navigation_structure ls =
       concat (map (\<lambda>k. map (structure_item_of k) (filter (\<lambda>l. level l = k) ls)) ks)"
    by blast
  let ?A = "map (structure_item_of lv) (filter (\<lambda>l. level l = lv) ls)"
  have seg: "filter (\<lambda>i. s_level i = lv)
               (map (structure_item_of k) (filter (\<lambda>l. level l = k) ls)) =
             (if k = lv then ?A else [])" for k
    by (auto simp: filter_map comp_def structure_item_of_def filter_empty_conv)
  have "filter (\<lambda>i. s_level i = lv) (build_navigation_structure ls) =
     concat (map (\<lambda>k. if k = lv then ?A else []) ks)"
    unfolding b by (simp add: filter_concat comp_def seg)
  also have "\<dots> = (if lv \<in> set ks then ?A else [])"
    using ks(1) by (rule concat_single_key)
  also have "\<dots> = ?A"
    using ks(2) by (auto simp: filter_empty_conv)
  finally show ?thesis .
qed


lemma pages_loop_char:
  "pages_loop L self crs st = Inr st' \<Longrightarrow>
   \<exists>pns. map Inr pns = map (extract_navigation_from_crawl_result L self) crs \<and>
     snd (snd st') = snd (snd st) @ pns \<and>
     fst (snd st') = fst (snd st) @
       concat (map (\<lambda>p. case enhanced_navigation p of None \<Rightarrow> []
                          | Some nav \<Rightarrow> all_nav_links nav) pns) \<and>
     fst st' = fst st +
       length (filter (\<lambda>p. (case enhanced_navigation p of None \<Rightarrow> []
                               | Some nav \<Rightarrow> all_nav_links nav) \<noteq> []) pns)"
proof (induction crs arbitrary: st)
  case Nil
  then show ?case by simp
next
  case (Cons cr crs)
  obtain n al pages where st: "st = (n, al, pages)" by (cases st) auto
  from Cons.prems st obtain pn where
    pn: "extract_navigation_from_crawl_result L self cr = Inr pn"
    by (cases "extract_navigation_from_crawl_result L self cr") auto
  let ?ls = "case enhanced_navigation pn of None \<Rightarrow> [] | Some nav \<Rightarrow> all_nav_links nav"
  let ?st1 = "(if ?ls \<noteq> [] then n + 1 else n, al @ ?ls, pages @ [pn])"
  from Cons.prems st pn have "pages_loop L self crs ?st1 = Inr st'"
    by (auto split: option.splits if_splits)
  from Cons.IH [OF this] obtain pns where
    m: "map Inr pns = map (extract_navigation_from_crawl_result L self) crs"
    and p: "snd (snd st') = snd (snd ?st1) @ pns"
    and a: "fst (snd st') = fst (snd ?st1) @
       concat (map (\<lambda>p. case enhanced_navigation p of None \<Rightarrow> []
                          | Some nav \<Rightarrow> all_nav_links nav) pns)"
    and c: "fst st' = fst ?st1 +
       length (filter (\<lambda>p. (case enhanced_navigation p of None \<Rightarrow> []
                               | Some nav \<Rightarrow> all_nav_links nav) \<noteq> []) pns)"
    by blast
  show ?case
  proof (intro exI [of _ "pn # pns"] conjI)
    show "map Inr (pn # pns) = map (extract_navigation_from_crawl_result L self) (cr # crs)"
      using m pn by simp
    show "snd (snd st') = snd (snd st) @ pn # pns" using p st by simp
    show "fst (snd st') = fst (snd st) @
       concat (map (\<lambda>p. case enhanced_navigation p of None \<Rightarrow> []
                          | Some nav \<Rightarrow> all_nav_links nav) (pn # pns))"
      using a st by simp
    show "fst st' = fst st +
       length (filter (\<lambda>p. (case enhanced_navigation p of None \<Rightarrow> []
                               | Some nav \<Rightarrow> all_nav_links nav) \<noteq> []) (pn # pns))"
      using c st by simp
  qed
qed

lemma distinct_text_url:
  "distinct (map link_key ls) \<Longrightarrow> distinct (map (\<lambda>l. (ltext l, url l)) ls)"
proof -
  assume d: "distinct (map link_key ls)"
  have "map link_key ls = map (\<lambda>p. fst p @ ''|'' @ snd p) (map (\<lambda>l. (ltext l, url l)) ls)"
    by (simp add: link_key_def)
  with d have "distinct (map (\<lambda>p. fst p @ ''|'' @ snd p) (map (\<lambda>l. (ltext l, url l)) ls))"
    by simp
  then show ?thesis by (rule distinct_map [THEN iffD1, THEN conjunct1])
qed

text \<open>
  C9. When the site aggregation returns, the page results are those of the crawl
  results in their order; the unique links are the deduplication of all pages' links
  concatenated in that order, so that no two of them have the same text and URL; and the
  site structure has ascending levels and, for each level, the unique links of that level
  in the order in which they were first met.
\<close>

theorem site_aggregation:
  "enhance_navigation_extraction L crawl_results b = Inr site \<Longrightarrow>
   (\<exists>self. init L b = Inr self \<and>
      map Inr (page_navigations site) =
        map (extract_navigation_from_crawl_result L self) crawl_results) \<and>
   unique_navigation_links site =
     deduplicate_links
       (concat (map (\<lambda>p. case enhanced_navigation p of None \<Rightarrow> []
                          | Some nav \<Rightarrow> all_nav_links nav) (page_navigations site))) \<and>
   distinct (map (\<lambda>l. (ltext l, url l)) (unique_navigation_links site)) \<and>
   sorted (map s_level (sn_navigation_structure site)) \<and>
   (\<forall>lv. filter (\<lambda>i. s_level i = lv) (sn_navigation_structure site) =
      map (structure_item_of lv)
        (filter (\<lambda>l. level l = lv) (unique_navigation_links site)))"
proof -
  assume a: "enhance_navigation_extraction L crawl_results b = Inr site"
  then obtain self where self: "init L b = Inr self"
    by (cases "init L b") (auto simp: enhance_navigation_extraction_def)
  with a obtain st where
    st: "pages_loop L self crawl_results (0, [], []) = Inr st"
    by (cases "pages_loop L self crawl_results (0, [], [])")
       (auto simp: enhance_navigation_extraction_def)
  obtain n al pages where s3: "st = (n, al, pages)" by (cases st) auto
  from a self st s3 have
    u: "unique_navigation_links site = deduplicate_links al"
    and s: "sn_navigation_structure site = build_navigation_structure (deduplicate_links al)"
    and p: "page_navigations site = pages"
    by (auto simp: enhance_navigation_extraction_def Let_def)
  from pages_loop_char [OF st] s3 obtain pns where
    m: "map Inr pns = map (extract_navigation_from_crawl_result L self) crawl_results"
    and pg: "pages = pns"
    and al: "al = concat (map (\<lambda>p. case enhanced_navigation p of None \<Rightarrow> []
                          | Some nav \<Rightarrow> all_nav_links nav) pns)"
    by auto
  have d: "distinct (map link_key (deduplicate_links al))"
    unfolding deduplicate_links_def by (rule dedup_loop_distinct)
  show ?thesis
  proof (intro conjI allI)
    show "\<exists>self. init L b = Inr self \<and>
      map Inr (page_navigations site) =
        map (extract_navigation_from_crawl_result L self) crawl_results"
      using self m p pg by blast
    show "unique_navigation_links site =
     deduplicate_links
       (concat (map (\<lambda>p. case enhanced_navigation p of None \<Rightarrow> []
                          | Some nav \<Rightarrow> all_nav_links nav) (page_navigations site)))"
      using u al p pg by simp
    show "distinct (map (\<lambda>l. (ltext l, url l)) (unique_navigation_links site))"
      unfolding u using d by (rule distinct_text_url)
    show "sorted (map s_level (sn_navigation_structure site))"
      unfolding s by (rule build_navigation_structure_sorted)
    show "filter (\<lambda>i. s_level i = lv) (sn_navigation_structure site) =
      map (structure_item_of lv)
        (filter (\<lambda>l. level l = lv) (unique_navigation_links site))" for lv
      unfolding s u by (rule build_navigation_structure_level)
  qed
qed


theorem site_aggregation_witness:
  "(case enhance_navigation_extraction example_libs
      [\<lparr>cr_url = welcome_page, cleaned_html = nested_menu_html,
        extracted_content = Content_dict []\<rparr>,
       \<lparr>cr_url = ''https://docs.example.com/a'', cleaned_html = nested_menu_html,
        extracted_content = Content_list []\<rparr>,
       \<lparr>cr_url = ''https://docs.example.com/models'', cleaned_html = welcome_html,
        extracted_content = Content_other\<rparr>]
      ''https://docs.example.com'' of
      Inl e \<Rightarrow> False
    | Inr site \<Rightarrow>
        map (\<lambda>l. (ltext l, url l, level l)) (unique_navigation_links site) =
          [(''A'', ''https://docs.example.com/a'', 1),
           (''Get Started'', ''https://docs.example.com/get-started'', 0),
           (''Models'', ''https://docs.example.com/models'', 0)] \<and>
        map (\<lambda>i. (s_text i, s_level i)) (sn_navigation_structure site) =
          [(''Get Started'', 0), (''Models'', 0), (''A'', 1)] \<and>
        pages_with_navigation site = 3 \<and>
        distinct (map (\<lambda>l. (ltext l, url l)) (unique_navigation_links site)) \<and>
        sorted (map s_level (sn_navigation_structure site)))"
proof -
  let ?x = "enhance_navigation_extraction example_libs
      [\<lparr>cr_url = welcome_page, cleaned_html = nested_menu_html,
        extracted_content = Content_dict []\<rparr>,
       \<lparr>cr_url = ''https://docs.example.com/a'', cleaned_html = nested_menu_html,
        extracted_content = Content_list []\<rparr>,
       \<lparr>cr_url = ''https://docs.example.com/models'', cleaned_html = welcome_html,
        extracted_content = Content_other\<rparr>]
      ''https://docs.example.com''"
  have v: "case ?x of Inl e \<Rightarrow> False
    | Inr site \<Rightarrow>
        map (\<lambda>l. (ltext l, url l, level l)) (unique_navigation_links site) =
          [(''A'', ''https://docs.example.com/a'', 1),
           (''Get Started'', ''https://docs.example.com/get-started'', 0),
           (''Models'', ''https://docs.example.com/models'', 0)] \<and>
        map (\<lambda>i. (s_text i, s_level i)) (sn_navigation_structure site) =
          [(''Get Started'', 0), (''Models'', 0), (''A'', 1)] \<and>
        pages_with_navigation site = 3"
    by code_simp
  then have x: "?x = Inr (projr ?x)" by (cases ?x) auto
  from site_aggregation [OF x]
  have "distinct (map (\<lambda>l. (ltext l, url l)) (unique_navigation_links (projr ?x)))"
    and "sorted (map s_level (sn_navigation_structure (projr ?x)))"
    by blast+
  with v x show ?thesis by (cases ?x) auto
qed

end
